theory Spec2Isabelle
  imports Main
begin

section \<open>JavaScript values and \<open>JSON.stringify\<close>\<close>

text \<open>
  The values that travel through the ledger are JSON values: the record handed to
  \<open>new Block(data)\<close>, and what \<open>JSON.parse\<close> gives back.  Numbers are restricted to
  integers (heights, and integer fields of a star); strings are lists of code units
  below 256, which is enough to tell ASCII from non-ASCII text.  An object is the list of
  its own properties in enumeration order; a JavaScript object never has two properties
  of the same name.
\<close>

datatype json = JNull | JBool bool | JNum int | JStr string
  | JArr "json list" | JObj "(string \<times> json) list"

definition digit_char :: "nat \<Rightarrow> char" where
  "digit_char d = char_of (48 + d)"

text \<open>\<open>Number.prototype.toString\<close> on a non-negative integer (below \<open>10^21\<close>).\<close>

fun show_nat :: "nat \<Rightarrow> string" where
  "show_nat n =
     (if n < 10 then [digit_char n] else show_nat (n div 10) @ [digit_char (n mod 10)])"

declare show_nat.simps [simp del]

definition show_int :: "int \<Rightarrow> string" where
  "show_int i = (if i < 0 then CHR ''-'' # show_nat (nat (- i)) else show_nat (nat i))"

definition hex_char :: "nat \<Rightarrow> char" where
  "hex_char d = (if d < 10 then char_of (48 + d) else char_of (87 + d))"

text \<open>
  \<open>QuoteJSONString\<close>: the double quote and the backslash are escaped, the control
  characters get their short escape or \<open>\u00xx\<close>, every other code unit is copied.
\<close>

definition quote_char :: "char \<Rightarrow> string" where
  "quote_char c =
     (if c = CHR 0x22 then [CHR 0x5C, CHR 0x22]
      else if c = CHR 0x5C then [CHR 0x5C, CHR 0x5C]
      else if c = CHR 0x08 then [CHR 0x5C, CHR ''b'']
      else if c = CHR 0x0C then [CHR 0x5C, CHR ''f'']
      else if c = CHR 0x0A then [CHR 0x5C, CHR ''n'']
      else if c = CHR 0x0D then [CHR 0x5C, CHR ''r'']
      else if c = CHR 0x09 then [CHR 0x5C, CHR ''t'']
      else if of_char c < (0x20 :: nat) then
        [CHR 0x5C, CHR ''u'', CHR ''0'', CHR ''0'',
         hex_char (of_char c div 16), hex_char (of_char c mod 16)]
      else [c])"

definition quote :: "string \<Rightarrow> string" where
  "quote s = CHR 0x22 # concat (map quote_char s) @ [CHR 0x22]"

text \<open>\<open>JSON.stringify(value)\<close> with no indentation: members and elements joined by commas.\<close>

fun JSON_stringify :: "json \<Rightarrow> string"
  and stringify_elems :: "json list \<Rightarrow> string"
  and stringify_members :: "(string \<times> json) list \<Rightarrow> string" where
  "JSON_stringify JNull = ''null''"
| "JSON_stringify (JBool b) = (if b then ''true'' else ''false'')"
| "JSON_stringify (JNum n) = show_int n"
| "JSON_stringify (JStr s) = quote s"
| "JSON_stringify (JArr xs) = CHR ''['' # stringify_elems xs @ '']''"
| "JSON_stringify (JObj kvs) = CHR ''{'' # stringify_members kvs @ ''}''"
| "stringify_elems [] = []"
| "stringify_elems [x] = JSON_stringify x"
| "stringify_elems (x # y # ys) = JSON_stringify x @ CHR '','' # stringify_elems (y # ys)"
| "stringify_members [] = []"
| "stringify_members [(k, v)] = quote k @ CHR '':'' # JSON_stringify v"
| "stringify_members ((k, v) # kv # kvs) =
     quote k @ CHR '':'' # JSON_stringify v @ CHR '','' # stringify_members (kv # kvs)"

section \<open>What a promise rejects with\<close>

text \<open>An entry of the error log of \<open>validateChain\<close>: \<open>{ block: i, error: '...' }\<close>.\<close>

record chain_error =
  block :: nat
  error :: string

text \<open>What a promise of the engine rejects with.\<close>

datatype rejection =
    Errors "chain_error list"
  | Error string
  | Message string
  | SyntaxError
  | TypeError

section \<open>\<open>JSON.parse\<close>\<close>

text \<open>
  The parser of the language: a recursive descent over the text.  Its first argument
  bounds the calls it may nest; \<open>JSON_parse\<close> gives it the length of the text, more
  than the text of a value needs (lemma \<open>fuel_le_length\<close>).  Two
  restrictions come from the value type: a number with a fraction or an exponent, and an
  escape \<open>\u....\<close> above \<open>00ff\<close>, are reported as syntax errors, so the model
  fails at least where the language does.
\<close>

definition is_digit :: "char \<Rightarrow> bool" where
  "is_digit c \<longleftrightarrow> 48 \<le> (of_char c :: nat) \<and> (of_char c :: nat) \<le> 57"

definition hex_val :: "char \<Rightarrow> nat option" where
  "hex_val c =
     (let n = (of_char c :: nat) in
      if 48 \<le> n \<and> n \<le> 57 then Some (n - 48)
      else if 97 \<le> n \<and> n \<le> 102 then Some (n - 87)
      else if 65 \<le> n \<and> n \<le> 70 then Some (n - 55)
      else None)"

definition is_hex :: "char \<Rightarrow> bool" where
  "is_hex c \<longleftrightarrow> hex_val c \<noteq> None"

definition digits_val :: "nat \<Rightarrow> string \<Rightarrow> nat" where
  "digits_val radix ds = foldl (\<lambda>a c. radix * a + (case hex_val c of None \<Rightarrow> 0 | Some d \<Rightarrow> d)) 0 ds"

definition json_ws :: "char \<Rightarrow> bool" where
  "json_ws c \<longleftrightarrow> (of_char c :: nat) \<in> {9, 10, 13, 32}"

definition unescape :: "char \<Rightarrow> char option" where
  "unescape e =
     (if e = CHR 0x22 then Some (CHR 0x22)
      else if e = CHR 0x5C then Some (CHR 0x5C)
      else if e = CHR ''/'' then Some (CHR ''/'')
      else if e = CHR ''b'' then Some (CHR 0x08)
      else if e = CHR ''f'' then Some (CHR 0x0C)
      else if e = CHR ''n'' then Some (CHR 0x0A)
      else if e = CHR ''r'' then Some (CHR 0x0D)
      else if e = CHR ''t'' then Some (CHR 0x09)
      else None)"

definition hex4 :: "string \<Rightarrow> char option" where
  "hex4 ds =
     (if length ds = 4 \<and> list_all is_hex ds \<and> digits_val 16 ds < 256
      then Some (char_of (digits_val 16 ds)) else None)"

fun parse_chars :: "string \<Rightarrow> (string \<times> string) option" where
  "parse_chars [] = None"
| "parse_chars (c # cs) =
     (if c = CHR 0x22 then Some ([], cs)
      else if c = CHR 0x5C then
        (case cs of
           [] \<Rightarrow> None
         | e # cs1 \<Rightarrow>
             if e = CHR ''u'' then
               (case hex4 (take 4 cs1) of
                  None \<Rightarrow> None
                | Some ch \<Rightarrow> map_option (\<lambda>(t, r). (ch # t, r)) (parse_chars (drop 4 cs1)))
             else
               (case unescape e of
                  None \<Rightarrow> None
                | Some ch \<Rightarrow> map_option (\<lambda>(t, r). (ch # t, r)) (parse_chars cs1)))
      else if (of_char c :: nat) < 0x20 then None
      else map_option (\<lambda>(t, r). (c # t, r)) (parse_chars cs))"

definition parse_number :: "string \<Rightarrow> (json \<times> string) option" where
  "parse_number s =
     (let neg = (s \<noteq> [] \<and> hd s = CHR ''-'');
          s1 = (if neg then tl s else s);
          ds = takeWhile is_digit s1;
          r = dropWhile is_digit s1
      in if ds = [] \<or> (length ds > 1 \<and> hd ds = CHR ''0'') then None
         else if r \<noteq> [] \<and> hd r \<in> {CHR ''.'', CHR ''e'', CHR ''E''} then None
         else Some (JNum ((if neg then - 1 else 1) * int (digits_val 10 ds)), r))"

definition parse_literal :: "string \<Rightarrow> json \<Rightarrow> string \<Rightarrow> (json \<times> string) option" where
  "parse_literal w v s = (if take (length w) s = w then Some (v, drop (length w) s) else None)"

text \<open>
  Defining a property that the object already has replaces its value and keeps its
  place; \<open>JSON.parse\<close> builds an object by defining its members in textual order.
\<close>

definition js_define :: "(string \<times> json) list \<Rightarrow> string \<times> json \<Rightarrow> (string \<times> json) list" where
  "js_define props kv =
     (if fst kv \<in> fst ` set props
      then map (\<lambda>p. if fst p = fst kv then kv else p) props
      else props @ [kv])"

definition js_object :: "(string \<times> json) list \<Rightarrow> json" where
  "js_object members = JObj (foldl js_define [] members)"

fun parse_value :: "nat \<Rightarrow> string \<Rightarrow> (json \<times> string) option"
  and parse_elems :: "nat \<Rightarrow> string \<Rightarrow> (json list \<times> string) option"
  and parse_members :: "nat \<Rightarrow> string \<Rightarrow> ((string \<times> json) list \<times> string) option" where
  "parse_value 0 s = None"
| "parse_value (Suc n) s =
     (case dropWhile json_ws s of
        [] \<Rightarrow> None
      | c # cs \<Rightarrow>
          if c = CHR ''{'' then
            (case dropWhile json_ws cs of
               [] \<Rightarrow> None
             | c1 # r \<Rightarrow>
                 if c1 = CHR ''}'' then Some (JObj [], r)
                 else map_option (\<lambda>(kvs, r1). (js_object kvs, r1)) (parse_members n cs))
          else if c = CHR ''['' then
            (case dropWhile json_ws cs of
               [] \<Rightarrow> None
             | c1 # r \<Rightarrow>
                 if c1 = CHR '']'' then Some (JArr [], r)
                 else map_option (\<lambda>(xs, r1). (JArr xs, r1)) (parse_elems n cs))
          else if c = CHR 0x22 then map_option (\<lambda>(t, r). (JStr t, r)) (parse_chars cs)
          else if c = CHR ''n'' then parse_literal ''null'' JNull (c # cs)
          else if c = CHR ''t'' then parse_literal ''true'' (JBool True) (c # cs)
          else if c = CHR ''f'' then parse_literal ''false'' (JBool False) (c # cs)
          else parse_number (c # cs))"
| "parse_elems 0 s = None"
| "parse_elems (Suc n) s =
     (case parse_value n s of
        None \<Rightarrow> None
      | Some (v, r) \<Rightarrow>
          (case dropWhile json_ws r of
             [] \<Rightarrow> None
           | c # r1 \<Rightarrow>
               if c = CHR '','' then map_option (\<lambda>(vs, r2). (v # vs, r2)) (parse_elems n r1)
               else if c = CHR '']'' then Some ([v], r1)
               else None))"
| "parse_members 0 s = None"
| "parse_members (Suc n) s =
     (case dropWhile json_ws s of
        [] \<Rightarrow> None
      | q # cs \<Rightarrow>
          if q \<noteq> CHR 0x22 then None
          else
            (case parse_chars cs of
               None \<Rightarrow> None
             | Some (k, r) \<Rightarrow>
                 (case dropWhile json_ws r of
                    [] \<Rightarrow> None
                  | c # r1 \<Rightarrow>
                      if c \<noteq> CHR '':'' then None
                      else
                        (case parse_value n r1 of
                           None \<Rightarrow> None
                         | Some (v, r2) \<Rightarrow>
                             (case dropWhile json_ws r2 of
                                [] \<Rightarrow> None
                              | c2 # r3 \<Rightarrow>
                                  if c2 = CHR '','' then
                                    map_option (\<lambda>(kvs, r4). ((k, v) # kvs, r4)) (parse_members n r3)
                                  else if c2 = CHR ''}'' then Some ([(k, v)], r3)
                                  else None)))))"

definition JSON_parse :: "string \<Rightarrow> rejection + json" where
  "JSON_parse text =
     (case parse_value (Suc (length text)) text of
        None \<Rightarrow> Inl SyntaxError
      | Some (v, r) \<Rightarrow> if dropWhile json_ws r = [] then Inr v else Inl SyntaxError)"

section \<open>block.js\<close>

text \<open>
  \<open>Buffer.from(str)\<close> encodes a string as UTF-8: a code unit below 128 is one byte, one
  from 128 to 255 is two.  \<open>toString('hex')\<close> writes each byte as two lower-case
  hexadecimal digits.
\<close>

definition utf8_char :: "char \<Rightarrow> string" where
  "utf8_char c =
     (if of_char c < (0x80 :: nat) then [c]
      else [char_of (0xC0 + (of_char c :: nat) div 64), char_of (0x80 + (of_char c :: nat) mod 64)])"

definition Buffer_from :: "string \<Rightarrow> string" where
  "Buffer_from s = concat (map utf8_char s)"

definition toString_hex :: "string \<Rightarrow> string" where
  "toString_hex bs =
     concat (map (\<lambda>b. [hex_char (of_char b div 16), hex_char (of_char b mod 16)]) bs)"

text \<open>
  A block.  \<open>hash\<close> and \<open>previousBlockHash\<close> are \<open>null\<close> or a string; \<open>time\<close> is the
  number \<open>0\<close> from the constructor until the append stores a string of digits.
\<close>

record Block =
  hash :: "string option"
  height :: nat
  body :: string
  time :: json
  previousBlockHash :: "string option"

definition Block_new :: "json \<Rightarrow> Block" where
  "Block_new data =
     \<lparr> hash = None, height = 0,
       body = toString_hex (Buffer_from (JSON_stringify data)),
       time = JNum 0, previousBlockHash = None \<rparr>"

definition json_of_hash :: "string option \<Rightarrow> json" where
  "json_of_hash h = (case h of None \<Rightarrow> JNull | Some x \<Rightarrow> JStr x)"

text \<open>The block as \<open>JSON.stringify\<close> sees it: its own properties in creation order.\<close>

definition block_json :: "Block \<Rightarrow> json" where
  "block_json b =
     JObj [(''hash'', json_of_hash (hash b)), (''height'', JNum (int (height b))),
           (''body'', JStr (body b)), (''time'', time b),
           (''previousBlockHash'', json_of_hash (previousBlockHash b))]"

text \<open>
  \<open>validate()\<close>.  The digest \<open>SHA256(...).toString()\<close> comes from the library
  \<open>crypto-js\<close>; it is the parameter \<open>sha\<close> of every definition that hashes.
\<close>

definition validate :: "(string \<Rightarrow> string) \<Rightarrow> Block \<Rightarrow> bool" where
  "validate sha self =
     (let currentHash = hash self;
          blockCopy = self\<lparr>hash := None\<rparr>;
          recalcHash = sha (JSON_stringify (block_json blockCopy))
      in currentHash = Some recalcHash)"

text \<open>
  The package \<open>hex2ascii\<close>: white space is removed, then every two characters are
  read as a hexadecimal number by \<open>parseInt(pair, 16)\<close>, which reads the digits it
  finds at the front of the pair; each number is one character, and a pair that gives no
  number, or the number \<open>0\<close>, is skipped.  A pair that starts with a sign is
  skipped here as well; what \<open>toString('hex')\<close> writes holds digits only.
\<close>

definition is_space :: "char \<Rightarrow> bool" where
  "is_space c \<longleftrightarrow> (of_char c :: nat) \<in> {9, 10, 11, 12, 13, 32, 160}"

fun hex_codes :: "string \<Rightarrow> string" where
  "hex_codes (a # b # rest) =
     (case hex_val a of
        None \<Rightarrow> hex_codes rest
      | Some x \<Rightarrow>
          (let code = (case hex_val b of None \<Rightarrow> x | Some y \<Rightarrow> 16 * x + y)
           in if code \<noteq> 0 then char_of code # hex_codes rest else hex_codes rest))"
| "hex_codes [a] =
     (case hex_val a of
        None \<Rightarrow> []
      | Some x \<Rightarrow> if x \<noteq> 0 then [char_of x] else [])"
| "hex_codes [] = []"

definition hex2ascii :: "string \<Rightarrow> string" where
  "hex2ascii hex = hex_codes (filter (\<lambda>c. \<not> is_space c) hex)"

text \<open>\<open>getBData()\<close>: a syntax error thrown by \<open>JSON.parse\<close> rejects the promise.\<close>

definition getBData :: "Block \<Rightarrow> rejection + json" where
  "getBData self =
     (if height self \<noteq> 0 then
        (let encodedData = body self;
             decodedData = hex2ascii encodedData
         in case JSON_parse decodedData of
              Inl e \<Rightarrow> Inl e
            | Inr dataObject \<Rightarrow> Inr dataObject)
      else Inl (Message ''Genesis block has no transaction data''))"

section \<open>blockchain.js\<close>

text \<open>
  The chain and its cached height (\<open>this.height\<close> of the class, named \<open>bc_height\<close>
  here because \<open>height\<close> is the block's field).
\<close>

record Blockchain =
  chain :: "Block list"
  bc_height :: int

definition check_block :: "(string \<Rightarrow> string) \<Rightarrow> Block list \<Rightarrow> nat \<Rightarrow> chain_error list" where
  "check_block sha blocks i =
     (let blk = blocks ! i in
      (if \<not> validate sha blk then [\<lparr> block = i, error = ''Block validation failed'' \<rparr>] else [])
      @ (if i > 0 \<and> previousBlockHash blk \<noteq> hash (blocks ! (i - 1))
         then [\<lparr> block = i, error = ''Previous block hash mismatch'' \<rparr>] else []))"

text \<open>
  \<open>validateChain()\<close>: the callbacks run in index order, each pushing its entries to the
  shared log.
\<close>

definition validateChain :: "(string \<Rightarrow> string) \<Rightarrow> Blockchain \<Rightarrow> chain_error list" where
  "validateChain sha self =
     concat (map (check_block sha (chain self)) [0 ..< length (chain self)])"

text \<open>\<open>new Date().getTime().toString().slice(0,-3)\<close>, the clock being \<open>now\<close> milliseconds.\<close>

definition clock_string :: "nat \<Rightarrow> string" where
  "clock_string now = (let s = show_nat now in take (length s - 3) s)"

text \<open>
  \<open>_addBlock(block)\<close>.  The result is what the promise settles with, and the ledger
  after the call.  The block is linked, stamped, numbered and hashed (with whatever its
  \<open>hash\<close> field holds at that moment), pushed, and only then is the chain validated.
\<close>

definition addBlock ::
  "(string \<Rightarrow> string) \<Rightarrow> nat \<Rightarrow> Blockchain \<Rightarrow> Block \<Rightarrow> (rejection + Block) \<times> Blockchain" where
  "addBlock sha now self blk =
     (let b1 = (if length (chain self) > 0
                then blk\<lparr>previousBlockHash := hash (last (chain self))\<rparr> else blk);
          b2 = b1\<lparr>time := JStr (clock_string now)\<rparr>;
          b3 = b2\<lparr>height := length (chain self)\<rparr>;
          b4 = b3\<lparr>hash := Some (sha (JSON_stringify (block_json b3)))\<rparr>;
          self' = self\<lparr>chain := chain self @ [b4], bc_height := bc_height self + 1\<rparr>;
          errors = validateChain sha self'
      in if length errors > 0 then (Inl (Errors errors), self') else (Inr b4, self'))"

text \<open>
  \<open>initializeChain()\<close> and the constructor, which starts from an empty chain with
  height \<open>-1\<close>; the push of the genesis block happens before the constructor
  returns.
\<close>

definition initializeChain :: "(string \<Rightarrow> string) \<Rightarrow> nat \<Rightarrow> Blockchain \<Rightarrow> Blockchain" where
  "initializeChain sha now self =
     (if bc_height self = - 1
      then snd (addBlock sha now self (Block_new (JObj [(''data'', JStr ''Genesis Block'')])))
      else self)"

definition Blockchain_new :: "(string \<Rightarrow> string) \<Rightarrow> nat \<Rightarrow> Blockchain" where
  "Blockchain_new sha now = initializeChain sha now \<lparr> chain = [], bc_height = - 1 \<rparr>"

text \<open>\<open>str.split(sep)\<close> for a separator of one character, and \<open>xs[i]\<close>.\<close>

fun split_on :: "char \<Rightarrow> string \<Rightarrow> string list" where
  "split_on sep [] = [[]]"
| "split_on sep (c # cs) =
     (if c = sep then [] # split_on sep cs
      else (case split_on sep cs of [] \<Rightarrow> [[c]] | x # xs \<Rightarrow> (c # x) # xs))"

definition js_index :: "'a list \<Rightarrow> nat \<Rightarrow> 'a option" where
  "js_index xs i = (if i < length xs then Some (xs ! i) else None)"

text \<open>
  \<open>parseInt(x)\<close> with no radix; \<open>None\<close> is \<open>NaN\<close>, which is also what \<open>undefined\<close>
  gives.  White space and a sign are skipped, \<open>0x\<close> selects base 16, the digits at the
  front are read.
\<close>

definition parseInt :: "string option \<Rightarrow> int option" where
  "parseInt arg =
     (case arg of
        None \<Rightarrow> None
      | Some str \<Rightarrow>
          (let s = dropWhile is_space str;
               neg = (s \<noteq> [] \<and> hd s = CHR ''-'');
               s1 = (if s \<noteq> [] \<and> (hd s = CHR ''-'' \<or> hd s = CHR ''+'') then tl s else s);
               hex = (take 2 s1 = ''0x'' \<or> take 2 s1 = ''0X'');
               s2 = (if hex then drop 2 s1 else s1);
               ds = takeWhile (if hex then is_hex else is_digit) s2
           in if ds = [] then None
              else Some ((if neg then - 1 else 1) * int (digits_val (if hex then 16 else 10) ds))))"

definition requestMessageOwnershipVerification :: "nat \<Rightarrow> string \<Rightarrow> string" where
  "requestMessageOwnershipVerification now address =
     address @ '':'' @ clock_string now @ '':starRegistry''"

text \<open>
  The test of the outer \<open>if\<close> of \<open>submitStar\<close>,
  \<open>(currentTime - messageTime) < 300\<close>: a comparison with \<open>NaN\<close> is false.
\<close>

definition messageTime :: "string \<Rightarrow> int option" where
  "messageTime message = parseInt (js_index (split_on CHR '':'' message) 1)"

definition currentTime :: "nat \<Rightarrow> int option" where
  "currentTime now = parseInt (Some (clock_string now))"

definition within_five_minutes :: "nat \<Rightarrow> string \<Rightarrow> bool" where
  "within_five_minutes now message =
     (case (currentTime now, messageTime message) of
        (Some c, Some m) \<Rightarrow> c - m < 300
      | _ \<Rightarrow> False)"

text \<open>
  \<open>submitStar(address, message, signature, star)\<close>.  \<open>bitcoinMessage.verify\<close> is the
  parameter \<open>verify\<close>; it answers or throws.  The clock is read once for the test
  (\<open>now\<close>) and once more by the append (\<open>now_add\<close>).
\<close>

definition submitStar ::
  "(string \<Rightarrow> string) \<Rightarrow> (string \<Rightarrow> string \<Rightarrow> string \<Rightarrow> rejection + bool) \<Rightarrow> nat \<Rightarrow> nat
     \<Rightarrow> Blockchain \<Rightarrow> string \<Rightarrow> string \<Rightarrow> string \<Rightarrow> json
     \<Rightarrow> (rejection + Block) \<times> Blockchain" where
  "submitStar sha verify now now_add self address message signature star =
     (if within_five_minutes now message then
        (case verify message address signature of
           Inl e \<Rightarrow> (Inl e, self)
         | Inr ok \<Rightarrow>
             if ok then
               addBlock sha now_add self
                 (Block_new (JObj [(''owner'', JStr address), (''star'', star)]))
             else (Inl (Error ''Signature verification failed.''), self))
      else (Inl (Error ''Message signature has expired.''), self))"

text \<open>
  Reading a property: \<open>None\<close> is \<open>undefined\<close>; reading from \<open>null\<close> throws.  The
  two names read here, \<open>owner\<close> and \<open>star\<close>, are on no prototype.
\<close>

definition js_get :: "json \<Rightarrow> string \<Rightarrow> rejection + json option" where
  "js_get v name =
     (case v of
        JNull \<Rightarrow> Inl TypeError
      | JObj props \<Rightarrow> Inr (map_of props name)
      | _ \<Rightarrow> Inr None)"

definition truthy :: "json option \<Rightarrow> bool" where
  "truthy v =
     (case v of
        None \<Rightarrow> False
      | Some JNull \<Rightarrow> False
      | Some (JBool b) \<Rightarrow> b
      | Some (JNum n) \<Rightarrow> n \<noteq> 0
      | Some (JStr s) \<Rightarrow> s \<noteq> []
      | Some _ \<Rightarrow> True)"

text \<open>The callback that \<open>getStarsByWalletAddress\<close> maps over the chain.\<close>

definition star_of_block :: "string \<Rightarrow> Block \<Rightarrow> rejection + json option" where
  "star_of_block address blk =
     (case JSON_parse (hex2ascii (body blk)) of
        Inl e \<Rightarrow> Inl e
      | Inr decodedData \<Rightarrow>
          (case js_get decodedData ''owner'' of
             Inl e \<Rightarrow> Inl e
           | Inr owner \<Rightarrow>
               if truthy owner \<and> owner = Some (JStr address)
               then js_get decodedData ''star''
               else Inr None))"

text \<open>\<open>Array.prototype.map\<close> with a callback that may throw.\<close>

fun map_blocks :: "(Block \<Rightarrow> rejection + 'a) \<Rightarrow> Block list \<Rightarrow> rejection + 'a list" where
  "map_blocks f [] = Inr []"
| "map_blocks f (b # bs) =
     (case f b of
        Inl e \<Rightarrow> Inl e
      | Inr y \<Rightarrow> (case map_blocks f bs of Inl e \<Rightarrow> Inl e | Inr ys \<Rightarrow> Inr (y # ys)))"

text \<open>\<open>getStarsByWalletAddress(address)\<close>; the answer \<open>None\<close> is \<open>null\<close>.\<close>

definition getStarsByWalletAddress :: "Blockchain \<Rightarrow> string \<Rightarrow> rejection + json list option" where
  "getStarsByWalletAddress self address =
     (case map_blocks (star_of_block address) (chain self) of
        Inl e \<Rightarrow> Inl e
      | Inr results \<Rightarrow>
          (let stars = concat (map (\<lambda>star. case star of None \<Rightarrow> [] | Some x \<Rightarrow> [x]) results)
           in if length stars > 0 then Inr (Some stars) else Inr None))"

section \<open>Vocabulary of the properties\<close>

text \<open>
  The ledgers the engine can be in: a freshly constructed one, and what a successful
  append of a newly constructed block makes of one.
\<close>

inductive reachable :: "(string \<Rightarrow> string) \<Rightarrow> Blockchain \<Rightarrow> bool" for sha where
  genesis: "reachable sha (Blockchain_new sha now)"
| append: "reachable sha s \<Longrightarrow> addBlock sha now s (Block_new d) = (Inr b, s')
     \<Longrightarrow> reachable sha s'"

text \<open>The invariant of claim C1.\<close>

definition well_formed :: "Blockchain \<Rightarrow> bool" where
  "well_formed s \<longleftrightarrow>
     (\<forall>i < length (chain s). height (chain s ! i) = i)
     \<and> chain s \<noteq> []
     \<and> previousBlockHash (chain s ! 0) = None
     \<and> (\<forall>i. 1 \<le> i \<and> i < length (chain s)
          \<longrightarrow> previousBlockHash (chain s ! i) = hash (chain s ! (i - 1)))
     \<and> bc_height s = int (length (chain s)) - 1"

text \<open>The block that \<open>_addBlock\<close> pushes, and the ledger after the push.\<close>

definition sealed :: "(string \<Rightarrow> string) \<Rightarrow> nat \<Rightarrow> Blockchain \<Rightarrow> Block \<Rightarrow> Block" where
  "sealed sha now self blk =
     (let b3 = blk\<lparr>previousBlockHash :=
                    (if length (chain self) > 0 then hash (last (chain self))
                     else previousBlockHash blk),
                  time := JStr (clock_string now), height := length (chain self)\<rparr>
      in b3\<lparr>hash := Some (sha (JSON_stringify (block_json b3)))\<rparr>)"

definition pushed :: "(string \<Rightarrow> string) \<Rightarrow> nat \<Rightarrow> Blockchain \<Rightarrow> Block \<Rightarrow> Blockchain" where
  "pushed sha now self blk =
     self\<lparr>chain := chain self @ [sealed sha now self blk], bc_height := bc_height self + 1\<rparr>"

text \<open>
  What \<open>JSON.parse(JSON.stringify(v))\<close> is: \<open>v\<close> with every object rebuilt by
  defining its members in order.
\<close>

fun reparsed :: "json \<Rightarrow> json"
  and reparsed_elems :: "json list \<Rightarrow> json list"
  and reparsed_members :: "(string \<times> json) list \<Rightarrow> (string \<times> json) list" where
  "reparsed JNull = JNull"
| "reparsed (JBool b) = JBool b"
| "reparsed (JNum n) = JNum n"
| "reparsed (JStr s) = JStr s"
| "reparsed (JArr xs) = JArr (reparsed_elems xs)"
| "reparsed (JObj kvs) = js_object (reparsed_members kvs)"
| "reparsed_elems [] = []"
| "reparsed_elems (x # xs) = reparsed x # reparsed_elems xs"
| "reparsed_members [] = []"
| "reparsed_members ((k, v) # kvs) = (k, reparsed v) # reparsed_members kvs"

text \<open>
  An object whose properties have distinct names, and integers that the number type
  holds exactly: the values that are JavaScript values.
\<close>

fun representable :: "json \<Rightarrow> bool"
  and representable_elems :: "json list \<Rightarrow> bool"
  and representable_members :: "(string \<times> json) list \<Rightarrow> bool" where
  "representable JNull = True"
| "representable (JBool b) = True"
| "representable (JNum n) = (\<bar>n\<bar> < 2 ^ 53)"
| "representable (JStr s) = True"
| "representable (JArr xs) = representable_elems xs"
| "representable (JObj kvs) = (distinct (map fst kvs) \<and> representable_members kvs)"
| "representable_elems [] = True"
| "representable_elems (x # xs) = (representable x \<and> representable_elems xs)"
| "representable_members [] = True"
| "representable_members ((k, v) # kvs) = (representable v \<and> representable_members kvs)"

text \<open>How deep the parser must go to read the text of a value.\<close>

fun fuel :: "json \<Rightarrow> nat"
  and fuel_elems :: "json list \<Rightarrow> nat"
  and fuel_members :: "(string \<times> json) list \<Rightarrow> nat" where
  "fuel JNull = 1"
| "fuel (JBool b) = 1"
| "fuel (JNum n) = 1"
| "fuel (JStr s) = 1"
| "fuel (JArr xs) = Suc (fuel_elems xs)"
| "fuel (JObj kvs) = Suc (fuel_members kvs)"
| "fuel_elems [] = 0"
| "fuel_elems (x # xs) = Suc (fuel x + fuel_elems xs)"
| "fuel_members [] = 0"
| "fuel_members ((k, v) # kvs) = Suc (fuel v + fuel_members kvs)"

text \<open>
  A value with every string replaced by its UTF-8 bytes, each read as one character:
  what \<open>hex2ascii\<close> makes of an encoded string.
\<close>

fun mangled :: "json \<Rightarrow> json"
  and mangled_elems :: "json list \<Rightarrow> json list"
  and mangled_members :: "(string \<times> json) list \<Rightarrow> (string \<times> json) list" where
  "mangled JNull = JNull"
| "mangled (JBool b) = JBool b"
| "mangled (JNum n) = JNum n"
| "mangled (JStr s) = JStr (Buffer_from s)"
| "mangled (JArr xs) = JArr (mangled_elems xs)"
| "mangled (JObj kvs) = JObj (mangled_members kvs)"
| "mangled_elems [] = []"
| "mangled_elems (x # xs) = mangled x # mangled_elems xs"
| "mangled_members [] = []"
| "mangled_members ((k, v) # kvs) = (Buffer_from k, mangled v) # mangled_members kvs"

definition ascii :: "string \<Rightarrow> bool" where
  "ascii s \<longleftrightarrow> (\<forall>c \<in> set s. (of_char c :: nat) < 128)"

fun ascii_json :: "json \<Rightarrow> bool"
  and ascii_elems :: "json list \<Rightarrow> bool"
  and ascii_members :: "(string \<times> json) list \<Rightarrow> bool" where
  "ascii_json JNull = True"
| "ascii_json (JBool b) = True"
| "ascii_json (JNum n) = True"
| "ascii_json (JStr s) = ascii s"
| "ascii_json (JArr xs) = ascii_elems xs"
| "ascii_json (JObj kvs) = ascii_members kvs"
| "ascii_elems [] = True"
| "ascii_elems (x # xs) = (ascii_json x \<and> ascii_elems xs)"
| "ascii_members [] = True"
| "ascii_members ((k, v) # kvs) = (ascii k \<and> ascii_json v \<and> ascii_members kvs)"

text \<open>What may come after a value in a text, and what a value may start with.\<close>

definition follow :: "string \<Rightarrow> bool" where
  "follow rest \<longleftrightarrow> rest = [] \<or> hd rest \<in> {CHR '','', CHR '']'', CHR ''}''}"

definition value_start :: "char \<Rightarrow> bool" where
  "value_start c \<longleftrightarrow> \<not> json_ws c \<and> c \<noteq> CHR '']'' \<and> c \<noteq> CHR ''}''"

definition nul_free :: "string \<Rightarrow> bool" where
  "nul_free s \<longleftrightarrow> CHR 0x00 \<notin> set s"

text \<open>
  A block as the engine builds it: hashed, and with a body that the constructor
  encoded.
\<close>

definition engine_block :: "Block \<Rightarrow> bool" where
  "engine_block b \<longleftrightarrow>
     hash b \<noteq> None \<and> (\<exists>d. body b = toString_hex (Buffer_from (JSON_stringify d)))"

text \<open>
  The identity query in the words of the specification: decode every payload, keep the
  blocks whose decoded owner is the identity, take their records; no record at all is
  \<open>NotFound\<close>.
\<close>

definition payload_field :: "Block \<Rightarrow> string \<Rightarrow> json option" where
  "payload_field blk name =
     (case JSON_parse (hex2ascii (body blk)) of
        Inr (JObj props) \<Rightarrow> map_of props name
      | _ \<Rightarrow> None)"

definition records_of_identity :: "Block list \<Rightarrow> string \<Rightarrow> json list" where
  "records_of_identity blocks identity =
     concat (map (\<lambda>blk.
       if payload_field blk ''owner'' = Some (JStr identity)
       then (case payload_field blk ''star'' of None \<Rightarrow> [] | Some record \<Rightarrow> [record])
       else []) blocks)"

definition getRecordsByIdentity :: "Block list \<Rightarrow> string \<Rightarrow> json list option" where
  "getRecordsByIdentity blocks identity =
     (let records = records_of_identity blocks identity
      in if records = [] then None else Some records)"

text \<open>A ledger all of whose payloads decode, to something other than \<open>null\<close>.\<close>

definition decodable :: "Blockchain \<Rightarrow> bool" where
  "decodable s \<longleftrightarrow>
     (\<forall>b \<in> set (chain s). \<exists>d. JSON_parse (hex2ascii (body b)) = Inr d \<and> d \<noteq> JNull)"

text \<open>
  A ledger for the examples: three stars appended to a new chain, two of them owned by
  \<open>A\<close>.  The digest of the examples is the text itself.
\<close>

definition star_ledger :: Blockchain where
  "star_ledger =
     pushed (\<lambda>x. x) 1700000003000
       (pushed (\<lambda>x. x) 1700000002000
          (pushed (\<lambda>x. x) 1700000001000 (Blockchain_new (\<lambda>x. x) 1700000000000)
             (Block_new (JObj [(''owner'', JStr ''A''), (''star'', JStr ''Vega'')])))
          (Block_new (JObj [(''owner'', JStr ''B''), (''star'', JStr ''Deneb'')])))
       (Block_new (JObj [(''owner'', JStr ''A''), (''star'', JStr ''Altair'')]))"

section \<open>Appending\<close>

lemma addBlock_eq:
  "addBlock sha now self blk =
     (if validateChain sha (pushed sha now self blk) = []
      then Inr (sealed sha now self blk)
      else Inl (Errors (validateChain sha (pushed sha now self blk))),
      pushed sha now self blk)"
  by (simp add: addBlock_def sealed_def pushed_def Let_def)

lemma snd_addBlock: "snd (addBlock sha now self blk) = pushed sha now self blk"
  by (simp add: addBlock_eq)

lemma sealed_fields:
  "height (sealed sha now self blk) = length (chain self)"
  "body (sealed sha now self blk) = body blk"
  "hash (sealed sha now self blk) \<noteq> None"
  "chain self \<noteq> [] \<Longrightarrow> previousBlockHash (sealed sha now self blk) = hash (last (chain self))"
  "chain self = [] \<Longrightarrow> previousBlockHash (sealed sha now self blk) = previousBlockHash blk"
  by (simp_all add: sealed_def Let_def)

lemma validate_sealed: "hash blk = None \<Longrightarrow> validate sha (sealed sha now self blk)"
  by (simp add: sealed_def Let_def validate_def block_json_def)

lemma check_block_append:
  "i < length bs \<Longrightarrow> check_block sha (bs @ [b]) i = check_block sha bs i"
  by (cases i) (simp_all add: check_block_def nth_append Let_def)

lemma validateChain_pushed:
  "validateChain sha (self\<lparr>chain := chain self @ [b], bc_height := h\<rparr>) =
     validateChain sha self @ check_block sha (chain self @ [b]) (length (chain self))"
proof -
  have eq: "map (check_block sha (chain self @ [b])) [0 ..< length (chain self)]
        = map (check_block sha (chain self)) [0 ..< length (chain self)]"
    by (rule map_cong) (simp_all add: check_block_append)
  show ?thesis by (simp add: validateChain_def eq)
qed

lemma check_block_Nil_iff:
  "check_block sha bs i = [] \<longleftrightarrow>
     validate sha (bs ! i) \<and> (i > 0 \<longrightarrow> previousBlockHash (bs ! i) = hash (bs ! (i - 1)))"
  by (auto simp add: check_block_def Let_def)

lemma validateChain_Nil_iff:
  "validateChain sha s = [] \<longleftrightarrow>
     (\<forall>i < length (chain s). validate sha (chain s ! i)
        \<and> (i > 0 \<longrightarrow> previousBlockHash (chain s ! i) = hash (chain s ! (i - 1))))"
  by (auto simp add: validateChain_def check_block_Nil_iff)

lemma Block_new_fields:
  "hash (Block_new d) = None" "previousBlockHash (Block_new d) = None"
  "body (Block_new d) = toString_hex (Buffer_from (JSON_stringify d))"
  by (simp_all add: Block_new_def)

lemma Blockchain_new_eq:
  "Blockchain_new sha now =
     \<lparr> chain = [sealed sha now \<lparr> chain = [], bc_height = - 1 \<rparr>
                  (Block_new (JObj [(''data'', JStr ''Genesis Block'')]))],
       bc_height = 0 \<rparr>"
  by (simp add: Blockchain_new_def initializeChain_def snd_addBlock pushed_def)

lemma well_formed_genesis: "well_formed (Blockchain_new sha now)"
  by (simp add: Blockchain_new_eq well_formed_def sealed_fields Block_new_fields)

lemma well_formed_pushed:
  assumes "well_formed s"
  shows "well_formed (pushed sha now s blk)"
proof -
  let ?b = "sealed sha now s blk"
  from assms have ne: "chain s \<noteq> []" by (simp add: well_formed_def)
  have last: "last (chain s) = chain s ! (length (chain s) - 1)"
    using ne by (simp add: last_conv_nth)
  show ?thesis
    using assms ne
    by (auto simp add: well_formed_def pushed_def nth_append sealed_fields last
        less_Suc_eq)
qed

lemma reachable_well_formed: "reachable sha s \<Longrightarrow> well_formed s"
proof (induction rule: reachable.induct)
  case (genesis now)
  show ?case by (rule well_formed_genesis)
next
  case (append s now d b s')
  from append.hyps(2) have "s' = pushed sha now s (Block_new d)"
    by (simp add: addBlock_eq split: if_splits)
  with append.IH show ?case by (simp add: well_formed_pushed)
qed

lemma validateChain_genesis: "validateChain sha (Blockchain_new sha now) = []"
  by (simp add: validateChain_Nil_iff Blockchain_new_eq validate_sealed Block_new_fields)

lemma reachable_validateChain: "reachable sha s \<Longrightarrow> validateChain sha s = []"
proof (induction rule: reachable.induct)
  case (genesis now)
  show ?case by (rule validateChain_genesis)
next
  case (append s now d b s')
  from append.hyps(2) show ?case
    by (auto simp add: addBlock_eq split: if_splits)
qed

lemma append_succeeds:
  assumes "reachable sha s"
  shows "addBlock sha now s (Block_new d) =
           (Inr (sealed sha now s (Block_new d)), pushed sha now s (Block_new d))"
proof -
  let ?b = "sealed sha now s (Block_new d)"
  have v: "validateChain sha s = []" using assms by (rule reachable_validateChain)
  have wf: "well_formed s" using assms by (rule reachable_well_formed)
  then have ne: "chain s \<noteq> []" by (simp add: well_formed_def)
  have "check_block sha (chain s @ [?b]) (length (chain s)) = []"
    using ne by (simp add: check_block_Nil_iff validate_sealed Block_new_fields
        sealed_fields nth_append last_conv_nth)
  then have "validateChain sha (pushed sha now s (Block_new d)) = []"
    using v by (simp add: pushed_def validateChain_pushed)
  then show ?thesis by (simp add: addBlock_eq)
qed

lemma validateChain_pushed_errors:
  "validateChain sha s \<noteq> [] \<Longrightarrow> validateChain sha (pushed sha now s blk) \<noteq> []"
  by (simp add: pushed_def validateChain_pushed)

section \<open>Numbers\<close>

lemma of_char_digit_char: "d < 10 \<Longrightarrow> (of_char (digit_char d) :: nat) = 48 + d"
  by (simp add: digit_char_def)

lemma is_digit_digit_char: "d < 10 \<Longrightarrow> is_digit (digit_char d)"
  by (simp add: is_digit_def of_char_digit_char)

lemma hex_val_digit_char: "d < 10 \<Longrightarrow> hex_val (digit_char d) = Some d"
  by (simp add: hex_val_def of_char_digit_char)

lemma show_nat_digits: "list_all is_digit (show_nat n)"
proof (induction n rule: show_nat.induct)
  case (1 n)
  show ?case
  proof (cases "n < 10")
    case True
    then show ?thesis by (simp add: show_nat.simps [of n] is_digit_digit_char)
  next
    case False
    with 1 show ?thesis by (simp add: show_nat.simps [of n] is_digit_digit_char)
  qed
qed

lemma show_nat_not_Nil: "show_nat n \<noteq> []"
  by (simp add: show_nat.simps [of n])

lemma digits_val_snoc:
  "digits_val r (ds @ [c]) = r * digits_val r ds + (case hex_val c of None \<Rightarrow> 0 | Some d \<Rightarrow> d)"
  by (simp add: digits_val_def)

lemma digits_val_show_nat: "digits_val 10 (show_nat n) = n"
proof (induction n rule: show_nat.induct)
  case (1 n)
  show ?case
  proof (cases "n < 10")
    case True
    then show ?thesis
      by (simp add: show_nat.simps [of n] digits_val_def hex_val_digit_char)
  next
    case False
    with 1 show ?thesis
      by (simp add: show_nat.simps [of n] digits_val_snoc hex_val_digit_char)
  qed
qed

lemma digit_char_zero_iff: "d < 10 \<Longrightarrow> digit_char d = CHR ''0'' \<longleftrightarrow> d = 0"
proof
  assume d: "d < 10" and "digit_char d = CHR ''0''"
  then have "(of_char (digit_char d) :: nat) = of_char (CHR ''0'')" by simp
  with d show "d = 0" by (simp add: of_char_digit_char)
next
  assume "d = 0"
  then have "(of_char (digit_char d) :: nat) = of_char (CHR ''0'')"
    by (simp add: of_char_digit_char)
  then show "digit_char d = CHR ''0''" by (simp only: of_char_eq_iff)
qed

lemma hd_show_nat_zero: "hd (show_nat n) = CHR ''0'' \<longleftrightarrow> n = 0"
proof (induction n rule: show_nat.induct)
  case (1 n)
  show ?case
  proof (cases "n < 10")
    case True
    then show ?thesis by (simp add: show_nat.simps [of n] digit_char_zero_iff)
  next
    case False
    with 1 show ?thesis
      by (simp add: show_nat.simps [of n] show_nat_not_Nil)
  qed
qed

lemma length_show_nat_small: "length (show_nat n) > 1 \<Longrightarrow> n \<noteq> 0"
  by (cases "n = 0") (simp_all add: show_nat.simps [of 0])

lemma is_digit_hd_show_nat: "is_digit (hd (show_nat n))"
  using show_nat_digits [of n] show_nat_not_Nil [of n]
  by (cases "show_nat n") simp_all

lemma follow_not_digit: "follow rest \<Longrightarrow> rest \<noteq> [] \<Longrightarrow> \<not> is_digit (hd rest)"
  by (auto simp add: follow_def is_digit_def)

lemma takeWhile_digits:
  assumes "list_all is_digit ds" and "follow rest"
  shows "takeWhile is_digit (ds @ rest) = ds" and "dropWhile is_digit (ds @ rest) = rest"
proof -
  have a: "\<forall>x\<in>set ds. is_digit x" using assms(1) by (simp add: list_all_iff)
  have t: "takeWhile is_digit rest = []"
    using follow_not_digit [OF assms(2)] by (cases rest) auto
  have d: "dropWhile is_digit rest = rest"
    using follow_not_digit [OF assms(2)] by (cases rest) auto
  show "takeWhile is_digit (ds @ rest) = ds" using a t by (simp add: takeWhile_append2)
  show "dropWhile is_digit (ds @ rest) = rest" using a d by (simp add: dropWhile_append2)
qed

lemma parse_number_show_nat:
  assumes "follow rest"
  shows "parse_number (show_nat n @ rest) = Some (JNum (int n), rest)"
proof -
  have h: "hd (show_nat n @ rest) = hd (show_nat n)" by (simp add: show_nat_not_Nil)
  have nm: "hd (show_nat n) \<noteq> CHR ''-''"
    using is_digit_hd_show_nat [of n] by (auto simp add: is_digit_def)
  have lz: "\<not> (length (show_nat n) > 1 \<and> hd (show_nat n) = CHR ''0'')"
    using length_show_nat_small [of n] by (auto simp add: hd_show_nat_zero)
  have fr: "\<not> (rest \<noteq> [] \<and> hd rest \<in> {CHR ''.'', CHR ''e'', CHR ''E''})"
    using assms by (auto simp add: follow_def)
  show ?thesis
    using nm lz fr
    by (simp add: parse_number_def Let_def h show_nat_not_Nil
        takeWhile_digits [OF show_nat_digits assms] digits_val_show_nat)
qed

lemma parse_number_show_int:
  assumes "follow rest"
  shows "parse_number (show_int i @ rest) = Some (JNum i, rest)"
proof (cases "i < 0")
  case False
  then show ?thesis
    using parse_number_show_nat [OF assms, of "nat i"] by (simp add: show_int_def)
next
  case True
  have lz: "\<not> (length (show_nat (nat (- i))) > 1 \<and> hd (show_nat (nat (- i))) = CHR ''0'')"
    using length_show_nat_small [of "nat (- i)"] by (auto simp add: hd_show_nat_zero)
  have fr: "\<not> (rest \<noteq> [] \<and> hd rest \<in> {CHR ''.'', CHR ''e'', CHR ''E''})"
    using assms by (auto simp add: follow_def)
  show ?thesis
    using True lz fr
    by (simp add: parse_number_def Let_def show_int_def show_nat_not_Nil
        takeWhile_digits [OF show_nat_digits assms] digits_val_show_nat)
qed

section \<open>Strings\<close>

lemma hex_val_hex_char: "d < 16 \<Longrightarrow> hex_val (hex_char d) = Some d"
  by (auto simp add: hex_val_def hex_char_def Let_def)

lemma hex4_escape:
  assumes "(of_char c :: nat) < 32"
  shows "hex4 [CHR ''0'', CHR ''0'', hex_char (of_char c div 16), hex_char (of_char c mod 16)]
         = Some c"
proof -
  let ?n = "of_char c :: nat"
  have d1: "?n div 16 < 16" and d2: "?n mod 16 < 16" using assms by simp_all
  have z: "hex_val (CHR ''0'') = Some 0" by (simp add: hex_val_def)
  have v: "digits_val 16 [CHR ''0'', CHR ''0'', hex_char (?n div 16), hex_char (?n mod 16)] = ?n"
    by (simp add: digits_val_def z hex_val_hex_char [OF d1] hex_val_hex_char [OF d2])
  have h: "list_all is_hex [CHR ''0'', CHR ''0'', hex_char (?n div 16), hex_char (?n mod 16)]"
    by (simp add: is_hex_def z hex_val_hex_char [OF d1] hex_val_hex_char [OF d2])
  have lt: "?n < 256" using assms by simp
  show ?thesis unfolding hex4_def v using h lt by simp
qed

lemma parse_chars_quote_char:
  assumes "parse_chars t = Some (s, r)"
  shows "parse_chars (quote_char c @ t) = Some (c # s, r)"
proof -
  consider (dq) "c = CHR 0x22" | (bs) "c = CHR 0x5C" | (b) "c = CHR 0x08" | (f) "c = CHR 0x0C"
    | (n) "c = CHR 0x0A" | (r) "c = CHR 0x0D" | (t) "c = CHR 0x09"
    | (u) "c \<notin> {CHR 0x22, CHR 0x5C, CHR 0x08, CHR 0x0C, CHR 0x0A, CHR 0x0D, CHR 0x09}"
          "(of_char c :: nat) < 32"
    | (other) "c \<notin> {CHR 0x22, CHR 0x5C, CHR 0x08, CHR 0x0C, CHR 0x0A, CHR 0x0D, CHR 0x09}"
          "\<not> (of_char c :: nat) < 32"
    by blast
  then show ?thesis
  proof cases
    case dq then show ?thesis using assms by (simp add: quote_char_def unescape_def)
  next
    case bs then show ?thesis using assms by (simp add: quote_char_def unescape_def)
  next
    case b then show ?thesis using assms by (simp add: quote_char_def unescape_def)
  next
    case f then show ?thesis using assms by (simp add: quote_char_def unescape_def)
  next
    case n then show ?thesis using assms by (simp add: quote_char_def unescape_def)
  next
    case r then show ?thesis using assms by (simp add: quote_char_def unescape_def)
  next
    case t then show ?thesis using assms by (simp add: quote_char_def unescape_def)
  next
    case u
    then show ?thesis using assms by (simp add: quote_char_def hex4_escape)
  next
    case other
    then show ?thesis using assms by (simp add: quote_char_def)
  qed
qed

lemma parse_chars_quoted:
  "parse_chars (concat (map quote_char s) @ CHR 0x22 # rest) = Some (s, rest)"
proof (induction s)
  case Nil
  show ?case by simp
next
  case (Cons c s)
  show ?case using parse_chars_quote_char [OF Cons.IH, of c] by simp
qed

lemma parse_chars_quote: "parse_chars (tl (quote s) @ rest) = Some (s, rest)"
  using parse_chars_quoted [of s rest] by (simp add: quote_def)

section \<open>Parsing what \<open>JSON.stringify\<close> wrote\<close>

lemma show_int_hd:
  "\<exists>c cs. show_int i = c # cs \<and> (is_digit c \<or> c = CHR ''-'')"
proof (cases "i < 0")
  case True
  then show ?thesis by (simp add: show_int_def)
next
  case False
  obtain c cs where e: "show_nat (nat i) = c # cs"
    using show_nat_not_Nil [of "nat i"] by (cases "show_nat (nat i)") auto
  with is_digit_hd_show_nat [of "nat i"] have "is_digit c" by simp
  with e False show ?thesis by (simp add: show_int_def)
qed

lemma value_start_number: "is_digit c \<or> c = CHR ''-'' \<Longrightarrow> value_start c"
  by (auto simp add: value_start_def is_digit_def json_ws_def)

lemma stringify_hd: "\<exists>c cs. JSON_stringify v = c # cs \<and> value_start c"
proof (cases v)
  case (JNum i)
  obtain c cs where "show_int i = c # cs" "is_digit c \<or> c = CHR ''-''"
    using show_int_hd by blast
  with JNum show ?thesis by (auto simp add: value_start_number)
qed (simp_all add: value_start_def json_ws_def quote_def)

lemma parse_value_number:
  assumes "is_digit c \<or> c = CHR ''-''"
  shows "parse_value (Suc n) (c # cs) = parse_number (c # cs)"
proof -
  have "\<not> json_ws c" "c \<noteq> CHR ''{''" "c \<noteq> CHR ''[''" "c \<noteq> CHR 0x22" "c \<noteq> CHR ''n''"
    "c \<noteq> CHR ''t''" "c \<noteq> CHR ''f''"
    using assms by (auto simp add: is_digit_def json_ws_def)
  then show ?thesis by simp
qed

lemma dropWhile_value_start: "value_start c \<Longrightarrow> dropWhile json_ws (c # cs) = c # cs"
  by (simp add: value_start_def)

lemma follow_simps [simp]:
  "follow []" "follow (CHR '','' # r)" "follow (CHR '']'' # r)" "follow (CHR ''}'' # r)"
  by (simp_all add: follow_def)

lemma parse_stringify_mutual:
  "\<forall>n rest. fuel v \<le> n \<longrightarrow> follow rest \<longrightarrow>
      parse_value n (JSON_stringify v @ rest) = Some (reparsed v, rest)"
  "xs \<noteq> [] \<longrightarrow> (\<forall>n rest. fuel_elems xs \<le> n \<longrightarrow>
      parse_elems n (stringify_elems xs @ CHR '']'' # rest) = Some (reparsed_elems xs, rest))"
  "kvs \<noteq> [] \<longrightarrow> (\<forall>n rest. fuel_members kvs \<le> n \<longrightarrow>
      parse_members n (stringify_members kvs @ CHR ''}'' # rest) = Some (reparsed_members kvs, rest))"
proof (induction v and xs and kvs rule: JSON_stringify_stringify_elems_stringify_members.induct)
  case 1
  show ?case
  proof (intro allI impI)
    fix n rest assume "fuel JNull \<le> n" "follow rest"
    then obtain m where "n = Suc m" by (cases n) auto
    then show "parse_value n (JSON_stringify JNull @ rest) = Some (reparsed JNull, rest)"
      by (simp add: json_ws_def parse_literal_def)
  qed
next
  case (2 b)
  show ?case
  proof (intro allI impI)
    fix n rest assume "fuel (JBool b) \<le> n" "follow rest"
    then obtain m where "n = Suc m" by (cases n) auto
    then show "parse_value n (JSON_stringify (JBool b) @ rest) = Some (reparsed (JBool b), rest)"
      by (cases b) (simp_all add: json_ws_def parse_literal_def)
  qed
next
  case (3 i)
  show ?case
  proof (intro allI impI)
    fix n rest assume "fuel (JNum i) \<le> n" and f: "follow rest"
    then obtain m where n: "n = Suc m" by (cases n) auto
    obtain c cs where e: "show_int i = c # cs" and c: "is_digit c \<or> c = CHR ''-''"
      using show_int_hd by blast
    have "parse_value n (show_int i @ rest) = parse_number (show_int i @ rest)"
      using parse_value_number [OF c] by (simp add: n e)
    then show "parse_value n (JSON_stringify (JNum i) @ rest) = Some (reparsed (JNum i), rest)"
      by (simp add: parse_number_show_int [OF f])
  qed
next
  case (4 s)
  show ?case
  proof (intro allI impI)
    fix n rest assume "fuel (JStr s) \<le> n" "follow rest"
    then obtain m where "n = Suc m" by (cases n) auto
    then show "parse_value n (JSON_stringify (JStr s) @ rest) = Some (reparsed (JStr s), rest)"
      using parse_chars_quoted [of s rest] by (simp add: quote_def json_ws_def)
  qed
next
  case (5 xs)
  show ?case
  proof (intro allI impI)
    fix n rest assume fu: "fuel (JArr xs) \<le> n" and "follow rest"
    then obtain m where n: "n = Suc m" and m: "fuel_elems xs \<le> m" by (cases n) auto
    show "parse_value n (JSON_stringify (JArr xs) @ rest) = Some (reparsed (JArr xs), rest)"
    proof (cases xs)
      case Nil
      then show ?thesis by (simp add: n json_ws_def)
    next
      case (Cons x xs')
      obtain c cs where e: "JSON_stringify x = c # cs" and c: "value_start c"
        using stringify_hd by blast
      obtain tl' where st: "stringify_elems xs = c # tl'"
        using Cons e by (cases xs') simp_all
      have ne: "xs \<noteq> []" using Cons by simp
      with 5 m have pe: "parse_elems m (stringify_elems xs @ CHR '']'' # rest)
                         = Some (reparsed_elems xs, rest)" by blast
      have "parse_value (Suc m) (CHR ''['' # (c # tl') @ CHR '']'' # rest)
            = map_option (\<lambda>(xs, r1). (JArr xs, r1)) (parse_elems m ((c # tl') @ CHR '']'' # rest))"
        using c by (simp add: json_ws_def value_start_def)
      then show ?thesis using pe by (simp add: n st)
    qed
  qed
next
  case (6 kvs)
  show ?case
  proof (intro allI impI)
    fix n rest assume fu: "fuel (JObj kvs) \<le> n" and "follow rest"
    then obtain m where n: "n = Suc m" and m: "fuel_members kvs \<le> m" by (cases n) auto
    show "parse_value n (JSON_stringify (JObj kvs) @ rest) = Some (reparsed (JObj kvs), rest)"
    proof (cases kvs)
      case Nil
      then show ?thesis by (simp add: n json_ws_def js_object_def)
    next
      case (Cons kv kvs')
      obtain tl' where st: "stringify_members kvs = CHR 0x22 # tl'"
        using Cons by (cases kv; cases kvs') (simp_all add: quote_def)
      have ne: "kvs \<noteq> []" using Cons by simp
      with 6 m have pe: "parse_members m (stringify_members kvs @ CHR ''}'' # rest)
                         = Some (reparsed_members kvs, rest)" by blast
      have "parse_value (Suc m) (CHR ''{'' # (CHR 0x22 # tl') @ CHR ''}'' # rest)
            = map_option (\<lambda>(kvs, r1). (js_object kvs, r1))
                (parse_members m ((CHR 0x22 # tl') @ CHR ''}'' # rest))"
        by (simp add: json_ws_def)
      then show ?thesis using pe by (simp add: n st)
    qed
  qed
next
  case 7
  show ?case by simp
next
  case (8 x)
  show ?case
  proof (intro allI impI)
    fix n rest assume "fuel_elems [x] \<le> n"
    then obtain m where n: "n = Suc m" and m: "fuel x \<le> m" by (cases n) auto
    from 8 m have "parse_value m (JSON_stringify x @ CHR '']'' # rest)
                   = Some (reparsed x, CHR '']'' # rest)" by simp
    then show "parse_elems n (stringify_elems [x] @ CHR '']'' # rest)
               = Some (reparsed_elems [x], rest)"
      by (simp add: n json_ws_def)
  qed
next
  case (9 x y ys)
  show ?case
  proof (intro impI allI)
    fix n rest assume "fuel_elems (x # y # ys) \<le> n"
    then obtain m where n: "n = Suc m" and m: "fuel x \<le> m" "fuel_elems (y # ys) \<le> m"
      by (cases n) auto
    from 9(1) m have a: "parse_value m (JSON_stringify x @ CHR '','' # stringify_elems (y # ys) @ CHR '']'' # rest)
                   = Some (reparsed x, CHR '','' # stringify_elems (y # ys) @ CHR '']'' # rest)"
      by simp
    from 9(2) m have b: "parse_elems m (stringify_elems (y # ys) @ CHR '']'' # rest)
                   = Some (reparsed_elems (y # ys), rest)" by blast
    show "parse_elems n (stringify_elems (x # y # ys) @ CHR '']'' # rest)
               = Some (reparsed_elems (x # y # ys), rest)"
      using a b by (simp add: n json_ws_def)
  qed
next
  case 10
  show ?case by simp
next
  case (11 k v)
  show ?case
  proof (intro impI allI)
    fix n rest assume "fuel_members [(k, v)] \<le> n"
    then obtain m where n: "n = Suc m" and m: "fuel v \<le> m" by (cases n) auto
    from 11 m have a: "parse_value m (JSON_stringify v @ CHR ''}'' # rest)
                   = Some (reparsed v, CHR ''}'' # rest)" by simp
    have q: "quote k = CHR 0x22 # tl (quote k)" by (simp add: quote_def)
    have "parse_members (Suc m) ((CHR 0x22 # tl (quote k)) @ CHR '':'' # JSON_stringify v @ CHR ''}'' # rest)
          = Some ([(k, reparsed v)], rest)"
      using a parse_chars_quote [of k "CHR '':'' # JSON_stringify v @ CHR ''}'' # rest"]
      by (simp add: json_ws_def)
    then show "parse_members n (stringify_members [(k, v)] @ CHR ''}'' # rest)
               = Some (reparsed_members [(k, v)], rest)"
      using q by (simp add: n)
  qed
next
  case (12 k v kv kvs)
  show ?case
  proof (intro impI allI)
    fix n rest assume "fuel_members ((k, v) # kv # kvs) \<le> n"
    then obtain m where n: "n = Suc m" and m: "fuel v \<le> m" "fuel_members (kv # kvs) \<le> m"
      by (cases n) auto
    let ?r = "CHR '','' # stringify_members (kv # kvs) @ CHR ''}'' # rest"
    from 12(1) m have a: "parse_value m (JSON_stringify v @ ?r) = Some (reparsed v, ?r)"
      by simp
    from 12(2) m have b: "parse_members m (stringify_members (kv # kvs) @ CHR ''}'' # rest)
                   = Some (reparsed_members (kv # kvs), rest)" by blast
    have q: "quote k = CHR 0x22 # tl (quote k)" by (simp add: quote_def)
    have "parse_members (Suc m) ((CHR 0x22 # tl (quote k)) @ CHR '':'' # JSON_stringify v @ ?r)
          = Some ((k, reparsed v) # reparsed_members (kv # kvs), rest)"
      using a b parse_chars_quote [of k "CHR '':'' # JSON_stringify v @ ?r"]
      by (simp add: json_ws_def)
    then show "parse_members n (stringify_members ((k, v) # kv # kvs) @ CHR ''}'' # rest)
               = Some (reparsed_members ((k, v) # kv # kvs), rest)"
      using q by (simp add: n)
  qed
qed

lemma show_int_not_Nil: "show_int i \<noteq> []"
  by (simp add: show_int_def show_nat_not_Nil)

lemma length_quote: "2 \<le> length (quote s)"
  by (simp add: quote_def)

lemma fuel_le_length:
  "fuel v \<le> length (JSON_stringify v)"
  "fuel_elems xs \<le> Suc (length (stringify_elems xs))"
  "fuel_members kvs \<le> Suc (length (stringify_members kvs))"
proof (induction v and xs and kvs rule: JSON_stringify_stringify_elems_stringify_members.induct)
  case (3 n)
  show ?case using show_int_not_Nil [of n] by (cases "show_int n") simp_all
next
  case (4 s)
  show ?case using length_quote [of s] by simp
next
  case (11 k v)
  then show ?case using length_quote [of k] by simp
next
  case (12 k v kv kvs)
  then show ?case using length_quote [of k] by simp
qed simp_all

lemma parse_value_stringify:
  "fuel v \<le> n \<Longrightarrow> follow rest \<Longrightarrow>
     parse_value n (JSON_stringify v @ rest) = Some (reparsed v, rest)"
  using parse_stringify_mutual(1) [of v] by blast

lemma JSON_parse_stringify: "JSON_parse (JSON_stringify v) = Inr (reparsed v)"
proof -
  have "fuel v \<le> Suc (length (JSON_stringify v))" using fuel_le_length(1) [of v] by simp
  then have "parse_value (Suc (length (JSON_stringify v))) (JSON_stringify v @ [])
             = Some (reparsed v, [])"
    by (rule parse_value_stringify) simp
  then show ?thesis by (simp add: JSON_parse_def del: parse_value.simps)
qed

section \<open>Objects\<close>

lemma foldl_js_define:
  "distinct (map fst (acc @ kvs)) \<Longrightarrow> foldl js_define acc kvs = acc @ kvs"
proof (induction kvs arbitrary: acc)
  case Nil
  show ?case by simp
next
  case (Cons kv kvs)
  from Cons.prems have "fst kv \<notin> fst ` set acc" by auto
  then have "js_define acc kv = acc @ [kv]" by (simp add: js_define_def)
  moreover from Cons.prems have "distinct (map fst ((acc @ [kv]) @ kvs))" by simp
  ultimately show ?case using Cons.IH [of "acc @ [kv]"] by simp
qed

lemma js_object_distinct: "distinct (map fst kvs) \<Longrightarrow> js_object kvs = JObj kvs"
  using foldl_js_define [of "[]" kvs] by (simp add: js_object_def)

lemma reparsed_representable:
  "representable v \<longrightarrow> reparsed v = v"
  "representable_elems xs \<longrightarrow> reparsed_elems xs = xs"
  "representable_members kvs \<longrightarrow> reparsed_members kvs = kvs"
  by (induction v and xs and kvs rule: reparsed_reparsed_elems_reparsed_members.induct)
     (simp_all add: js_object_distinct)

section \<open>Hexadecimal\<close>

lemma of_char_hex_char: "d < 16 \<Longrightarrow> (of_char (hex_char d) :: nat) = (if d < 10 then 48 + d else 87 + d)"
  by (simp add: hex_char_def)

lemma not_space_hex_char: "d < 16 \<Longrightarrow> \<not> is_space (hex_char d)"
  by (auto simp add: is_space_def of_char_hex_char)

lemma div16_less: "(of_char b :: nat) div 16 < 16"
proof -
  have "(of_char b :: nat) < 16 * 16" by simp
  then show ?thesis by (rule less_mult_imp_div_less)
qed

lemma filter_space_toString_hex:
  "filter (\<lambda>c. \<not> is_space c) (toString_hex bs) = toString_hex bs"
  by (induction bs) (simp_all add: toString_hex_def not_space_hex_char div16_less)

lemma hex_codes_toString_hex:
  "hex_codes (toString_hex bs) = filter (\<lambda>b. b \<noteq> CHR 0x00) bs"
proof (induction bs)
  case Nil
  show ?case by (simp add: toString_hex_def)
next
  case (Cons b bs)
  let ?n = "of_char b :: nat"
  have d: "?n div 16 < 16" "?n mod 16 < 16" by (simp_all add: div16_less)
  have "(of_char (CHR 0x00) :: nat) = 0" by simp
  then have z: "b = CHR 0x00 \<longleftrightarrow> ?n = 0"
    by (metis of_char_eq_iff)
  have "toString_hex (b # bs) = hex_char (?n div 16) # hex_char (?n mod 16) # toString_hex bs"
    by (simp add: toString_hex_def)
  then show ?case
    using Cons.IH z by (simp add: hex_val_hex_char [OF d(1)] hex_val_hex_char [OF d(2)])
qed

lemma hex2ascii_toString_hex:
  "CHR 0x00 \<notin> set bs \<Longrightarrow> hex2ascii (toString_hex bs) = bs"
  by (auto simp add: hex2ascii_def filter_space_toString_hex hex_codes_toString_hex
      filter_id_conv)

section \<open>UTF-8\<close>

lemma Buffer_from_append: "Buffer_from (xs @ ys) = Buffer_from xs @ Buffer_from ys"
  by (simp add: Buffer_from_def)

lemma Buffer_from_Cons: "Buffer_from (c # cs) = utf8_char c @ Buffer_from cs"
  by (simp add: Buffer_from_def)

lemma Buffer_from_Nil: "Buffer_from [] = []"
  by (simp add: Buffer_from_def)

lemma Buffer_from_ascii: "ascii s \<Longrightarrow> Buffer_from s = s"
  by (induction s) (simp_all add: Buffer_from_def ascii_def utf8_char_def)

lemma ascii_append: "ascii (xs @ ys) \<longleftrightarrow> ascii xs \<and> ascii ys"
  by (auto simp add: ascii_def)

lemma ascii_hex_char: "d < 16 \<Longrightarrow> (of_char (hex_char d) :: nat) < 128"
  by (simp add: of_char_hex_char)

lemma ascii_quote_char: "(of_char c :: nat) < 128 \<Longrightarrow> ascii (quote_char c)"
  by (simp add: quote_char_def ascii_def ascii_hex_char div16_less)

lemma quote_char_high:
  assumes "128 \<le> (of_char c :: nat)"
  shows "quote_char c = [c]"
proof -
  have "c \<noteq> CHR 0x22" "c \<noteq> CHR 0x5C" "c \<noteq> CHR 0x08" "c \<noteq> CHR 0x0C" "c \<noteq> CHR 0x0A"
    "c \<noteq> CHR 0x0D" "c \<noteq> CHR 0x09" "\<not> (of_char c :: nat) < 32"
    using assms by auto
  then show ?thesis by (simp add: quote_char_def)
qed

lemma utf8_char_high:
  assumes "128 \<le> (of_char c :: nat)"
  shows "\<exists>b1 b2. utf8_char c = [b1, b2] \<and> 128 \<le> (of_char b1 :: nat) \<and> 128 \<le> (of_char b2 :: nat)"
proof -
  let ?n = "of_char c :: nat"
  have "?n < 4 * 64" by simp
  then have "?n div 64 < 4" by (rule less_mult_imp_div_less)
  then have "(of_char (char_of (192 + ?n div 64) :: char) :: nat) = 192 + ?n div 64"
    by simp
  moreover have "(of_char (char_of (128 + ?n mod 64) :: char) :: nat) = 128 + ?n mod 64"
    by simp
  ultimately show ?thesis using assms by (simp add: utf8_char_def)
qed

lemma Buffer_from_quote_char:
  "Buffer_from (quote_char c) = concat (map quote_char (utf8_char c))"
proof (cases "(of_char c :: nat) < 128")
  case True
  then show ?thesis
    by (simp add: Buffer_from_ascii [OF ascii_quote_char] utf8_char_def)
next
  case False
  then have h: "128 \<le> (of_char c :: nat)" by simp
  obtain b1 b2 where u: "utf8_char c = [b1, b2]" "128 \<le> (of_char b1 :: nat)"
    "128 \<le> (of_char b2 :: nat)"
    using utf8_char_high [OF h] by blast
  show ?thesis
    by (simp add: quote_char_high [OF h] Buffer_from_def u quote_char_high)
qed

lemma Buffer_from_quoted:
  "Buffer_from (concat (map quote_char s)) = concat (map quote_char (Buffer_from s))"
  by (induction s)
     (simp_all add: Buffer_from_Nil Buffer_from_Cons Buffer_from_append Buffer_from_quote_char)

lemma Buffer_from_quote: "Buffer_from (quote s) = quote (Buffer_from s)"
  by (simp add: quote_def Buffer_from_Cons Buffer_from_append Buffer_from_quoted
      Buffer_from_Nil utf8_char_def)

lemma ascii_digits: "list_all is_digit ds \<Longrightarrow> ascii ds"
  by (auto simp add: list_all_iff ascii_def is_digit_def)

lemma ascii_show_int: "ascii (show_int i)"
  using ascii_digits [OF show_nat_digits] by (simp add: show_int_def ascii_def)

lemma Buffer_from_stringify:
  "Buffer_from (JSON_stringify v) = JSON_stringify (mangled v)"
  "Buffer_from (stringify_elems xs) = stringify_elems (mangled_elems xs)"
  "Buffer_from (stringify_members kvs) = stringify_members (mangled_members kvs)"
proof (induction v and xs and kvs rule: JSON_stringify_stringify_elems_stringify_members.induct)
  case 1
  show ?case by (simp add: Buffer_from_def utf8_char_def)
next
  case (2 b)
  show ?case by (simp add: Buffer_from_def utf8_char_def)
next
  case (3 n)
  show ?case by (simp add: Buffer_from_ascii [OF ascii_show_int])
next
  case (4 s)
  show ?case by (simp add: Buffer_from_quote)
next
  case (5 xs)
  then show ?case by (simp add: Buffer_from_Cons Buffer_from_append Buffer_from_Nil utf8_char_def)
next
  case (6 kvs)
  then show ?case by (simp add: Buffer_from_Cons Buffer_from_append Buffer_from_Nil utf8_char_def)
next
  case 7
  show ?case by (simp add: Buffer_from_Nil)
next
  case (8 x)
  then show ?case by simp
next
  case (9 x y ys)
  then show ?case by (simp add: Buffer_from_Cons Buffer_from_append utf8_char_def)
next
  case 10
  show ?case by (simp add: Buffer_from_Nil)
next
  case (11 k v)
  then show ?case
    by (simp add: Buffer_from_Cons Buffer_from_append utf8_char_def Buffer_from_quote)
next
  case (12 k v kv kvs)
  then show ?case
    by (cases kv)
       (simp add: Buffer_from_Cons Buffer_from_append utf8_char_def Buffer_from_quote)
qed

lemma mangled_ascii:
  "ascii_json v \<longrightarrow> mangled v = v"
  "ascii_elems xs \<longrightarrow> mangled_elems xs = xs"
  "ascii_members kvs \<longrightarrow> mangled_members kvs = kvs"
  by (induction v and xs and kvs rule: mangled_mangled_elems_mangled_members.induct)
     (simp_all add: Buffer_from_ascii)

lemma nul_free_simps:
  "nul_free []" "nul_free (c # cs) \<longleftrightarrow> c \<noteq> CHR 0x00 \<and> nul_free cs"
  "nul_free (xs @ ys) \<longleftrightarrow> nul_free xs \<and> nul_free ys"
  by (auto simp add: nul_free_def)

lemma hex_char_not_nul: "d < 16 \<Longrightarrow> hex_char d \<noteq> CHR 0x00"
proof
  assume "d < 16" "hex_char d = CHR 0x00"
  then have "(of_char (hex_char d) :: nat) = 0" by simp
  with \<open>d < 16\<close> show False by (simp add: of_char_hex_char split: if_splits)
qed

lemma nul_free_quote_char: "nul_free (quote_char c)"
proof (cases "(of_char c :: nat) < 32")
  case True
  then show ?thesis
    by (simp add: quote_char_def nul_free_simps hex_char_not_nul div16_less)
next
  case False
  then have "c \<noteq> CHR 0x00" by auto
  with False show ?thesis by (simp add: quote_char_def nul_free_simps)
qed

lemma nul_free_quote: "nul_free (quote s)"
proof -
  have "nul_free (concat (map quote_char s))"
    by (induction s) (simp_all add: nul_free_simps nul_free_quote_char)
  then show ?thesis by (simp add: quote_def nul_free_simps)
qed

lemma nul_free_digits: "list_all is_digit ds \<Longrightarrow> nul_free ds"
  by (auto simp add: list_all_iff nul_free_def is_digit_def)

lemma nul_free_show_int: "nul_free (show_int i)"
  using nul_free_digits [OF show_nat_digits] by (simp add: show_int_def nul_free_simps)

lemma nul_free_stringify:
  "nul_free (JSON_stringify v)"
  "nul_free (stringify_elems xs)"
  "nul_free (stringify_members kvs)"
  by (induction v and xs and kvs rule: JSON_stringify_stringify_elems_stringify_members.induct)
     (simp_all add: nul_free_simps nul_free_quote nul_free_show_int)

lemma decode_encode:
  "JSON_parse (hex2ascii (toString_hex (Buffer_from (JSON_stringify v))))
     = Inr (reparsed (mangled v))"
proof -
  have "nul_free (JSON_stringify (mangled v))" by (rule nul_free_stringify)
  then have "hex2ascii (toString_hex (Buffer_from (JSON_stringify v)))
             = JSON_stringify (mangled v)"
    by (simp add: Buffer_from_stringify hex2ascii_toString_hex nul_free_def)
  then show ?thesis by (simp add: JSON_parse_stringify)
qed

section \<open>The clock and the challenge\<close>

lemma show_nat_snoc: "10 \<le> n \<Longrightarrow> show_nat n = show_nat (n div 10) @ [digit_char (n mod 10)]"
  by (simp add: show_nat.simps [of n])

lemma show_nat_thousands:
  assumes "1000 \<le> n"
  shows "show_nat n = show_nat (n div 1000)
           @ [digit_char (n div 100 mod 10), digit_char (n div 10 mod 10), digit_char (n mod 10)]"
proof -
  have a: "10 \<le> n" "10 \<le> n div 10" "10 \<le> n div 10 div 10" using assms by auto
  have d: "n div 10 div 10 = n div 100" "n div 100 div 10 = n div 1000"
    by (simp_all add: div_mult2_eq)
  show ?thesis
    using show_nat_snoc [OF a(1)] show_nat_snoc [OF a(2)] show_nat_snoc [OF a(3)]
    by (simp add: d)
qed

lemma clock_string_seconds: "1000 \<le> now \<Longrightarrow> clock_string now = show_nat (now div 1000)"
  by (simp add: clock_string_def Let_def show_nat_thousands)

lemma not_space_digit: "is_digit c \<Longrightarrow> \<not> is_space c"
  by (auto simp add: is_digit_def is_space_def)

lemma digits_no_prefix:
  assumes "list_all is_digit ds"
  shows "take 2 ds \<noteq> ''0x''" "take 2 ds \<noteq> ''0X''"
proof -
  have x: "\<not> is_digit (CHR ''x'')" "\<not> is_digit (CHR ''X'')" by (simp_all add: is_digit_def)
  have s: "set (take 2 ds) \<subseteq> set ds" by (rule set_take_subset)
  show "take 2 ds \<noteq> ''0x''"
  proof
    assume "take 2 ds = ''0x''"
    with s have "CHR ''x'' \<in> set ds" by auto
    with assms x show False by (auto simp add: list_all_iff)
  qed
  show "take 2 ds \<noteq> ''0X''"
  proof
    assume "take 2 ds = ''0X''"
    with s have "CHR ''X'' \<in> set ds" by auto
    with assms x show False by (auto simp add: list_all_iff)
  qed
qed

lemma parseInt_digits:
  assumes "list_all is_digit ds" "ds \<noteq> []"
  shows "parseInt (Some ds) = Some (int (digits_val 10 ds))"
proof -
  obtain c cs where e: "ds = c # cs" using assms(2) by (cases ds) auto
  with assms(1) have c: "is_digit c" by simp
  then have ns: "\<not> is_space c" by (rule not_space_digit)
  from c have sg: "c \<noteq> CHR ''-''" "c \<noteq> CHR ''+''" by (auto simp add: is_digit_def)
  have dw: "dropWhile is_space ds = ds" using e ns by simp
  have tw: "takeWhile is_digit ds = ds"
    using assms(1) by (simp add: takeWhile_eq_all_conv list_all_iff)
  show ?thesis
    unfolding parseInt_def
    using sg assms(2) digits_no_prefix [OF assms(1)]
    by (simp add: Let_def dw tw e [symmetric] hd_conv_nth) (simp add: e)
qed

lemma parseInt_show_nat: "parseInt (Some (show_nat n)) = Some (int n)"
  using parseInt_digits [OF show_nat_digits show_nat_not_Nil, of n]
  by (simp add: digits_val_show_nat)

lemma currentTime_seconds: "1000 \<le> now \<Longrightarrow> currentTime now = Some (int (now div 1000))"
  by (simp add: currentTime_def clock_string_seconds parseInt_show_nat)

lemma split_on_not_Nil: "split_on sep s \<noteq> []"
  by (induction s) (auto split: list.splits)

lemma split_on_prefix:
  "sep \<notin> set a \<Longrightarrow> split_on sep (a @ sep # rest) = a # split_on sep rest"
  by (induction a) (auto split: list.splits simp add: split_on_not_Nil)

lemma colon_not_digit: "list_all is_digit ds \<Longrightarrow> CHR '':'' \<notin> set ds"
  by (auto simp add: list_all_iff is_digit_def)

lemma messageTime_request:
  assumes "CHR '':'' \<notin> set identity" "1000 \<le> issued"
  shows "messageTime (requestMessageOwnershipVerification issued identity)
         = Some (int (issued div 1000))"
proof -
  let ?t = "show_nat (issued div 1000)"
  have c: "CHR '':'' \<notin> set ?t" by (rule colon_not_digit [OF show_nat_digits])
  have "requestMessageOwnershipVerification issued identity
        = identity @ CHR '':'' # (?t @ CHR '':'' # ''starRegistry'')"
    by (simp add: requestMessageOwnershipVerification_def clock_string_seconds [OF assms(2)])
  then have "split_on CHR '':'' (requestMessageOwnershipVerification issued identity)
             = identity # ?t # split_on CHR '':'' ''starRegistry''"
    by (simp only: split_on_prefix [OF assms(1)] split_on_prefix [OF c])
  then show ?thesis
    by (simp add: messageTime_def js_index_def parseInt_show_nat)
qed

lemma within_five_minutes_iff:
  "1000 \<le> now \<Longrightarrow>
     within_five_minutes now message
       \<longleftrightarrow> (\<exists>m. messageTime message = Some m \<and> int (now div 1000) - m < 300)"
  by (auto simp add: within_five_minutes_def currentTime_seconds split: option.splits)

lemma parseInt_letter: "parseInt (Some ''b'') = None"
  by (simp add: parseInt_def is_space_def is_digit_def Let_def)

section \<open>Submitting\<close>

lemma submitStar_expired:
  "\<not> within_five_minutes now message \<Longrightarrow>
     submitStar sha verify now now_add s address message signature star
       = (Inl (Error ''Message signature has expired.''), s)"
  by (simp add: submitStar_def)

lemma submitStar_bad_signature:
  "within_five_minutes now message \<Longrightarrow> verify message address signature = Inr False \<Longrightarrow>
     submitStar sha verify now now_add s address message signature star
       = (Inl (Error ''Signature verification failed.''), s)"
  by (simp add: submitStar_def)

lemma submitStar_accepted:
  assumes "within_five_minutes now message" and "verify message address signature = Inr True"
    and "reachable sha s"
  shows "submitStar sha verify now now_add s address message signature star
         = (Inr (sealed sha now_add s (Block_new (JObj [(''owner'', JStr address), (''star'', star)]))),
            pushed sha now_add s (Block_new (JObj [(''owner'', JStr address), (''star'', star)])))"
  using assms by (simp add: submitStar_def append_succeeds)

lemma submitStar_reachable:
  assumes "reachable sha s"
  shows "reachable sha (snd (submitStar sha verify now now_add s address message signature star))"
proof (cases "within_five_minutes now message")
  case False
  then show ?thesis using assms by (simp add: submitStar_expired)
next
  case True
  show ?thesis
  proof (cases "verify message address signature")
    case (Inl e)
    with True show ?thesis using assms by (simp add: submitStar_def)
  next
    case (Inr ok)
    show ?thesis
    proof (cases ok)
      case False
      with True Inr show ?thesis using assms by (simp add: submitStar_bad_signature)
    next
      case True
      with Inr \<open>within_five_minutes now message\<close>
      have "submitStar sha verify now now_add s address message signature star
            = addBlock sha now_add s (Block_new (JObj [(''owner'', JStr address), (''star'', star)]))"
        by (simp add: submitStar_def)
      then show ?thesis
        using reachable.append [OF assms append_succeeds [OF assms]]
        by (simp add: append_succeeds [OF assms])
    qed
  qed
qed

section \<open>Payloads\<close>

lemma getBData_Block_new:
  "h \<noteq> 0 \<Longrightarrow> body blk = toString_hex (Buffer_from (JSON_stringify x)) \<Longrightarrow> height blk = h \<Longrightarrow>
     getBData blk = Inr (reparsed (mangled x))"
  by (simp add: getBData_def Let_def decode_encode)

lemma utf8_e_acute: "Buffer_from [CHR 0xE9] = [CHR 0xC3, CHR 0xA9]"
  by code_simp

lemma payload_sealed:
  assumes "representable d" and "ascii_json d"
  shows "JSON_parse (hex2ascii (body (sealed sha now s (Block_new d)))) = Inr d"
  using assms mangled_ascii(1) [of d] reparsed_representable(1) [of d]
  by (simp add: sealed_fields Block_new_fields decode_encode)

lemma payload_field_sealed:
  assumes "representable (JObj props)" and "ascii_json (JObj props)"
  shows "payload_field (sealed sha now s (Block_new (JObj props))) name = map_of props name"
  by (simp add: payload_field_def payload_sealed [OF assms])

lemma engine_block_sealed: "engine_block (sealed sha now s (Block_new d))"
  by (auto simp add: engine_block_def sealed_fields Block_new_fields)

lemma reachable_engine_blocks: "reachable sha s \<Longrightarrow> \<forall>b \<in> set (chain s). engine_block b"
proof (induction rule: reachable.induct)
  case (genesis now)
  show ?case by (simp add: Blockchain_new_eq engine_block_sealed)
next
  case (append s now d b s')
  from append.hyps(2) have "s' = pushed sha now s (Block_new d)"
    by (auto simp add: addBlock_eq)
  with append.IH show ?case by (simp add: pushed_def engine_block_sealed)
qed

lemma engine_block_decodes:
  assumes "engine_block b"
  shows "\<exists>v. JSON_parse (hex2ascii (body b)) = Inr v"
  using assms by (auto simp add: engine_block_def decode_encode)

lemma star_of_block_no_syntax_error:
  "JSON_parse (hex2ascii (body b)) = Inr v \<Longrightarrow> star_of_block a b \<noteq> Inl SyntaxError"
  by (cases v) (simp_all add: star_of_block_def js_get_def)

lemma map_blocks_no_syntax_error:
  "\<forall>b \<in> set bs. \<exists>v. JSON_parse (hex2ascii (body b)) = Inr v \<Longrightarrow>
     map_blocks (star_of_block a) bs \<noteq> Inl SyntaxError"
proof (induction bs)
  case Nil
  show ?case by simp
next
  case (Cons b bs)
  then obtain v where "JSON_parse (hex2ascii (body b)) = Inr v" by auto
  then have "star_of_block a b \<noteq> Inl SyntaxError" by (rule star_of_block_no_syntax_error)
  moreover from Cons have "map_blocks (star_of_block a) bs \<noteq> Inl SyntaxError" by simp
  ultimately show ?case by (auto split: sum.splits)
qed

lemma star_of_block_found:
  assumes "JSON_parse (hex2ascii (body b)) = Inr d" and "d \<noteq> JNull" and "a \<noteq> []"
  shows "star_of_block a b
         = Inr (if payload_field b ''owner'' = Some (JStr a) then payload_field b ''star''
                else None)"
  using assms
  by (cases d) (auto simp add: star_of_block_def js_get_def payload_field_def truthy_def)

lemma map_blocks_total:
  "\<forall>b \<in> set bs. f b = Inr (g b) \<Longrightarrow> map_blocks f bs = Inr (map g bs)"
  by (induction bs) simp_all

lemma defined_stars:
  "concat (map (\<lambda>star. case star of None \<Rightarrow> [] | Some x \<Rightarrow> [x])
     (map (\<lambda>b. if payload_field b ''owner'' = Some (JStr a) then payload_field b ''star''
                else None) bs))
   = records_of_identity bs a"
  by (induction bs) (simp_all add: records_of_identity_def)

lemma getStars_eq_records:
  assumes "address \<noteq> []"
    and "\<forall>b \<in> set (chain s). \<exists>d. JSON_parse (hex2ascii (body b)) = Inr d \<and> d \<noteq> JNull"
  shows "getStarsByWalletAddress s address = Inr (getRecordsByIdentity (chain s) address)"
proof -
  have "\<forall>b \<in> set (chain s). star_of_block address b
          = Inr (if payload_field b ''owner'' = Some (JStr address)
                 then payload_field b ''star'' else None)"
    using assms star_of_block_found by blast
  then have "map_blocks (star_of_block address) (chain s)
        = Inr (map (\<lambda>b. if payload_field b ''owner'' = Some (JStr address)
                 then payload_field b ''star'' else None) (chain s))"
    by (rule map_blocks_total)
  then have "getStarsByWalletAddress s address
        = (let stars = records_of_identity (chain s) address
           in if length stars > 0 then Inr (Some stars) else Inr None)"
    by (simp only: getStarsByWalletAddress_def sum.case defined_stars)
  then show ?thesis
    by (cases "records_of_identity (chain s) address")
       (simp_all add: getRecordsByIdentity_def Let_def)
qed

lemma payload_object:
  "\<exists>d. JSON_parse (hex2ascii (body (sealed sha now s (Block_new (JObj props))))) = Inr d
       \<and> d \<noteq> JNull"
proof -
  have "JSON_parse (hex2ascii (body (sealed sha now s (Block_new (JObj props)))))
        = Inr (reparsed (mangled (JObj props)))"
    by (simp only: sealed_fields Block_new_fields decode_encode)
  moreover have "reparsed (mangled (JObj props)) \<noteq> JNull"
    by (simp add: js_object_def)
  ultimately show ?thesis by simp
qed

lemma decodable_genesis: "decodable (Blockchain_new sha now)"
  by (simp add: decodable_def Blockchain_new_eq payload_object)

lemma decodable_pushed:
  "decodable s \<Longrightarrow> decodable (pushed sha now s (Block_new (JObj props)))"
  by (simp add: decodable_def pushed_def payload_object)

lemma decodable_submitStar:
  assumes "decodable s"
  shows "decodable (snd (submitStar sha verify now now_add s address message signature star))"
proof -
  have "snd (submitStar sha verify now now_add s address message signature star) = s
        \<or> snd (submitStar sha verify now now_add s address message signature star)
           = pushed sha now_add s (Block_new (JObj [(''owner'', JStr address), (''star'', star)]))"
    by (simp add: submitStar_def snd_addBlock split: sum.splits)
  with assms show ?thesis by (auto simp add: decodable_pushed)
qed

section \<open>Serialised blocks\<close>

lemma json_of_hash_inj: "json_of_hash a = json_of_hash b \<Longrightarrow> a = b"
  by (cases a; cases b) (simp_all add: json_of_hash_def)

lemma reparsed_json_of_hash: "reparsed (json_of_hash h) = json_of_hash h"
  by (cases h) (simp_all add: json_of_hash_def)

lemma reparsed_block_json:
  "representable (time b) \<Longrightarrow> reparsed (block_json b) = block_json b"
  using reparsed_representable(1) [of "time b"]
  by (simp add: block_json_def reparsed_json_of_hash js_object_distinct)

lemma block_json_inj:
  fixes a b :: Block
  assumes "block_json a = block_json b"
  shows "a = b"
proof -
  from assms have "hash a = hash b" "height a = height b" "body a = body b" "time a = time b"
    "previousBlockHash a = previousBlockHash b"
    by (auto simp add: block_json_def dest: json_of_hash_inj)
  then show ?thesis by simp
qed

lemma stringify_block_inj:
  fixes a b :: Block
  assumes "representable (time a)" and "representable (time b)"
    and "JSON_stringify (block_json a) = JSON_stringify (block_json b)"
  shows "a = b"
proof -
  have "JSON_parse (JSON_stringify (block_json a)) = JSON_parse (JSON_stringify (block_json b))"
    using assms(3) by simp
  then have "reparsed (block_json a) = reparsed (block_json b)"
    by (simp add: JSON_parse_stringify)
  then have "block_json a = block_json b"
    by (simp add: reparsed_block_json assms(1,2))
  then show ?thesis by (rule block_json_inj)
qed

lemma validateChain_has_entry:
  assumes "i < length (chain s)" and "\<not> validate sha (chain s ! i)"
  shows "\<exists>e \<in> set (validateChain sha s). block e = i"
proof -
  have "\<lparr> block = i, error = ''Block validation failed'' \<rparr> \<in> set (check_block sha (chain s) i)"
    using assms(2) by (simp add: check_block_def Let_def)
  moreover have "i \<in> set [0 ..< length (chain s)]" using assms(1) by simp
  ultimately have "\<lparr> block = i, error = ''Block validation failed'' \<rparr> \<in> set (validateChain sha s)"
    unfolding validateChain_def by (auto simp del: set_upt)
  then show ?thesis by force
qed

section \<open>The ledger\<close>

text \<open>
  Claim C1.  In every ledger that construction and successful appends of new blocks can
  produce, the block at index \<open>i\<close> has height \<open>i\<close>, the first block has no previous
  hash, every later block carries the hash of the block before it, and the cached height
  is the number of blocks less one.  A freshly constructed ledger holds one block, the
  genesis block, and has height \<open>0\<close>.
\<close>

theorem chain_well_formed:
  "(reachable sha s \<longrightarrow> well_formed s)
   \<and> length (chain (Blockchain_new sha now)) = 1
   \<and> bc_height (Blockchain_new sha now) = 0"
  by (simp add: reachable_well_formed Blockchain_new_eq)

theorem chain_well_formed_witness:
  "reachable (\<lambda>x. x)
     (pushed (\<lambda>x. x) 1700000060000 (Blockchain_new (\<lambda>x. x) 1700000000000)
        (Block_new (JStr ''star'')))
   \<and> well_formed
     (pushed (\<lambda>x. x) 1700000060000 (Blockchain_new (\<lambda>x. x) 1700000000000)
        (Block_new (JStr ''star'')))
   \<and> map height (chain
     (pushed (\<lambda>x. x) 1700000060000 (Blockchain_new (\<lambda>x. x) 1700000000000)
        (Block_new (JStr ''star'')))) = [0, 1]"
proof -
  let ?s = "pushed (\<lambda>x. x) 1700000060000 (Blockchain_new (\<lambda>x. x) 1700000000000)
        (Block_new (JStr ''star''))"
  have r: "reachable (\<lambda>x. x) ?s"
    by (rule reachable.append [OF reachable.genesis append_succeeds [OF reachable.genesis]])
  have h: "map height (chain ?s) = [0, 1]"
    by (simp add: pushed_def Blockchain_new_eq sealed_fields)
  from r h chain_well_formed [of "\<lambda>x. x" ?s] show ?thesis by simp
qed

text \<open>
  Claim C2.  In every such ledger each stored block validates, that is, its stored hash
  is the digest of the block serialised with \<open>hash\<close> set to \<open>null\<close>, and
  \<open>validateChain\<close> returns the empty log.
\<close>

theorem untampered_chain_validates:
  assumes "reachable sha s"
  shows "(\<forall>b \<in> set (chain s).
            validate sha b
            \<and> hash b = Some (sha (JSON_stringify (block_json (b\<lparr>hash := None\<rparr>)))))
         \<and> validateChain sha s = []"
proof -
  have v: "validateChain sha s = []" using assms by (rule reachable_validateChain)
  have "validate sha b" if "b \<in> set (chain s)" for b
  proof -
    from that obtain i where "i < length (chain s)" "chain s ! i = b"
      by (auto simp add: in_set_conv_nth)
    with v show ?thesis by (auto simp add: validateChain_Nil_iff)
  qed
  with v show ?thesis by (auto simp add: validate_def Let_def)
qed

theorem untampered_chain_validates_witness:
  "reachable (\<lambda>x. x)
     (pushed (\<lambda>x. x) 1700000060000 (Blockchain_new (\<lambda>x. x) 1700000000000)
        (Block_new (JObj [(''owner'', JStr ''a''), (''star'', JNull)])))
   \<and> length (chain
     (pushed (\<lambda>x. x) 1700000060000 (Blockchain_new (\<lambda>x. x) 1700000000000)
        (Block_new (JObj [(''owner'', JStr ''a''), (''star'', JNull)])))) = 2
   \<and> validateChain (\<lambda>x. x)
     (pushed (\<lambda>x. x) 1700000060000 (Blockchain_new (\<lambda>x. x) 1700000000000)
        (Block_new (JObj [(''owner'', JStr ''a''), (''star'', JNull)]))) = []
   \<and> validate (\<lambda>x. x) (last (chain
     (pushed (\<lambda>x. x) 1700000060000 (Blockchain_new (\<lambda>x. x) 1700000000000)
        (Block_new (JObj [(''owner'', JStr ''a''), (''star'', JNull)])))))"
proof -
  let ?s = "pushed (\<lambda>x. x) 1700000060000 (Blockchain_new (\<lambda>x. x) 1700000000000)
        (Block_new (JObj [(''owner'', JStr ''a''), (''star'', JNull)]))"
  have r: "reachable (\<lambda>x. x) ?s"
    by (rule reachable.append [OF reachable.genesis append_succeeds [OF reachable.genesis]])
  have l: "length (chain ?s) = 2" by (simp add: pushed_def Blockchain_new_eq)
  have m: "last (chain ?s) \<in> set (chain ?s)" by (simp add: pushed_def)
  note u = untampered_chain_validates [OF r]
  from u have b: "validateChain (\<lambda>x. x) ?s = []" by (rule conjunct2)
  from u m have c: "validate (\<lambda>x. x) (last (chain ?s))" by blast
  show ?thesis
    apply (intro conjI)
       apply (rule r)
      apply (rule l)
     apply (rule b)
    apply (rule c)
    done
qed

text \<open>
  Claim C4.  When the validation that \<open>_addBlock\<close> runs after the push finds errors,
  the promise rejects with them, and the ledger keeps the new block: the chain is one
  longer, the block is its last element, and the cached height has gone up by one.
\<close>

theorem append_failure_keeps_block:
  assumes "addBlock sha now s blk = (r, s')" and "validateChain sha s' \<noteq> []"
  shows "r = Inl (Errors (validateChain sha s'))
         \<and> length (chain s') = Suc (length (chain s))
         \<and> butlast (chain s') = chain s
         \<and> body (last (chain s')) = body blk
         \<and> height (last (chain s')) = length (chain s)
         \<and> bc_height s' = bc_height s + 1"
proof -
  from assms(1) have s': "s' = pushed sha now s blk"
    and r: "r = (if validateChain sha (pushed sha now s blk) = []
                 then Inr (sealed sha now s blk)
                 else Inl (Errors (validateChain sha (pushed sha now s blk))))"
    by (auto simp add: addBlock_eq)
  from r s' assms(2) have "r = Inl (Errors (validateChain sha s'))" by simp
  then show ?thesis by (simp add: s' pushed_def sealed_fields)
qed

theorem append_failure_keeps_block_witness:
  "validateChain (\<lambda>x. x)
     (snd (addBlock (\<lambda>x. x) 1700000000000 \<lparr> chain = [Block_new JNull], bc_height = 0 \<rparr>
        (Block_new (JStr ''x'')))) \<noteq> []
   \<and> (\<exists>errs. fst (addBlock (\<lambda>x. x) 1700000000000 \<lparr> chain = [Block_new JNull], bc_height = 0 \<rparr>
        (Block_new (JStr ''x''))) = Inl (Errors errs))
   \<and> length (chain (snd (addBlock (\<lambda>x. x) 1700000000000
        \<lparr> chain = [Block_new JNull], bc_height = 0 \<rparr> (Block_new (JStr ''x''))))) = 2
   \<and> bc_height (snd (addBlock (\<lambda>x. x) 1700000000000
        \<lparr> chain = [Block_new JNull], bc_height = 0 \<rparr> (Block_new (JStr ''x'')))) = 1"
proof -
  let ?s = "\<lparr> chain = [Block_new JNull], bc_height = 0 \<rparr>"
  let ?a = "addBlock (\<lambda>x. x) 1700000000000 ?s (Block_new (JStr ''x''))"
  have e: "?a = (fst ?a, snd ?a)" by simp
  have "\<not> validate (\<lambda>x. x) (Block_new JNull)" by (simp add: validate_def Block_new_def)
  then have "check_block (\<lambda>x. x) [Block_new JNull] 0 \<noteq> []" by (simp add: check_block_def)
  then have "validateChain (\<lambda>x. x) ?s \<noteq> []" by (simp add: validateChain_def)
  then have v: "validateChain (\<lambda>x. x) (snd ?a) \<noteq> []"
    by (simp only: snd_addBlock validateChain_pushed_errors not_False_eq_True)
  from append_failure_keeps_block [OF e v] v show ?thesis by simp
qed

section \<open>Tampering\<close>

text \<open>
  Claim C3.  Take a stored block that validates, and change its height, time, previous
  hash or body to another value of the field's type while the stored hash stays.  Unless
  the digest of the changed block collides with the digest of the original,
  \<open>validate\<close> is then false, and \<open>validateChain\<close> on any chain holding the
  changed block at index \<open>i\<close> has an entry for \<open>i\<close>.  The digest is a parameter;
  the hypothesis on it is that these two serialisations are not a collision.
\<close>

theorem tamper_detected:
  fixes b b' :: Block
  assumes "validate sha b"
    and "hash b' = hash b"
    and "height b' \<noteq> height b \<or> time b' \<noteq> time b
         \<or> previousBlockHash b' \<noteq> previousBlockHash b \<or> body b' \<noteq> body b"
    and "representable (time b)" and "representable (time b')"
    and "sha (JSON_stringify (block_json (b'\<lparr>hash := None\<rparr>)))
           = sha (JSON_stringify (block_json (b\<lparr>hash := None\<rparr>)))
         \<longrightarrow> JSON_stringify (block_json (b'\<lparr>hash := None\<rparr>))
           = JSON_stringify (block_json (b\<lparr>hash := None\<rparr>))"
  shows "\<not> validate sha b'
         \<and> (\<forall>s i. i < length (chain s) \<and> chain s ! i = b'
              \<longrightarrow> (\<exists>e \<in> set (validateChain sha s). block e = i))"
proof -
  have nv: "\<not> validate sha b'"
  proof
    assume "validate sha b'"
    with assms(1,2) have "sha (JSON_stringify (block_json (b'\<lparr>hash := None\<rparr>)))
           = sha (JSON_stringify (block_json (b\<lparr>hash := None\<rparr>)))"
      by (simp add: validate_def Let_def)
    with assms(6) have "JSON_stringify (block_json (b'\<lparr>hash := None\<rparr>))
           = JSON_stringify (block_json (b\<lparr>hash := None\<rparr>))" by simp
    moreover have "representable (time (b'\<lparr>hash := None\<rparr>))" "representable (time (b\<lparr>hash := None\<rparr>))"
      using assms(4,5) by simp_all
    ultimately have "b'\<lparr>hash := None\<rparr> = b\<lparr>hash := None\<rparr>"
      by (rule stringify_block_inj [rotated 2])
    then have "height b' = height b \<and> time b' = time b
         \<and> previousBlockHash b' = previousBlockHash b \<and> body b' = body b"
      by (metis Block.select_convs Block.surjective Block.update_convs(1))
    with assms(3) show False by simp
  qed
  then show ?thesis using validateChain_has_entry by blast
qed

theorem tamper_detected_witness:
  "validate (\<lambda>x. x)
     (sealed (\<lambda>x. x) 1700000060000 (Blockchain_new (\<lambda>x. x) 1700000000000) (Block_new (JStr ''Vega'')))
   \<and> \<not> validate (\<lambda>x. x)
     ((sealed (\<lambda>x. x) 1700000060000 (Blockchain_new (\<lambda>x. x) 1700000000000) (Block_new (JStr ''Vega'')))
        \<lparr>height := 7\<rparr>)
   \<and> (\<exists>e \<in> set (validateChain (\<lambda>x. x)
         \<lparr> chain = chain (Blockchain_new (\<lambda>x. x) 1700000000000)
              @ [(sealed (\<lambda>x. x) 1700000060000 (Blockchain_new (\<lambda>x. x) 1700000000000)
                    (Block_new (JStr ''Vega'')))\<lparr>height := 7\<rparr>],
           bc_height = 1 \<rparr>). block e = 1)"
proof -
  let ?s0 = "Blockchain_new (\<lambda>x. x) 1700000000000"
  let ?b = "sealed (\<lambda>x. x) 1700000060000 ?s0 (Block_new (JStr ''Vega''))"
  let ?b' = "?b\<lparr>height := 7\<rparr>"
  let ?s = "\<lparr> chain = chain ?s0 @ [?b'], bc_height = 1 \<rparr>"
  have v: "validate (\<lambda>x. x) ?b" by (simp add: validate_sealed Block_new_fields)
  have h: "hash ?b' = hash ?b" by simp
  have c: "height ?b' \<noteq> height ?b \<or> time ?b' \<noteq> time ?b
         \<or> previousBlockHash ?b' \<noteq> previousBlockHash ?b \<or> body ?b' \<noteq> body ?b"
    by (simp add: sealed_fields Blockchain_new_eq)
  have r: "representable (time ?b)" "representable (time ?b')"
    by (simp_all add: sealed_def Let_def)
  have n: "(\<lambda>x. x) (JSON_stringify (block_json (?b'\<lparr>hash := None\<rparr>)))
           = (\<lambda>x. x) (JSON_stringify (block_json (?b\<lparr>hash := None\<rparr>)))
         \<longrightarrow> JSON_stringify (block_json (?b'\<lparr>hash := None\<rparr>))
           = JSON_stringify (block_json (?b\<lparr>hash := None\<rparr>))"
    by simp
  note t = tamper_detected [of "\<lambda>x. x" ?b ?b', OF v h c r n]
  have i: "1 < length (chain ?s) \<and> chain ?s ! 1 = ?b'"
    by (simp add: Blockchain_new_eq)
  from t have nv: "\<not> validate (\<lambda>x. x) ?b'" by (rule conjunct1)
  from t i have e: "\<exists>e \<in> set (validateChain (\<lambda>x. x) ?s). block e = 1" by blast
  show ?thesis
    apply (intro conjI)
      apply (rule v)
     apply (rule nv)
    apply (rule e)
    done
qed

section \<open>Submissions that are turned down\<close>

text \<open>
  Claim C5.  A submission whose challenge carries a time \<open>m\<close> with
  \<open>now - m \<ge> 300\<close> seconds is rejected as expired; one that is within the five
  minutes but whose signature the verifier answers \<open>false\<close> to is rejected for its
  signature.  Both leave the ledger as it was: chain and height unchanged.
\<close>

theorem submission_rejected_unchanged:
  "(1000 \<le> now \<and> messageTime message = Some m \<and> 300 \<le> int (now div 1000) - m
      \<longrightarrow> submitStar sha verify now now_add s address message signature star
            = (Inl (Error ''Message signature has expired.''), s))
   \<and> (1000 \<le> now \<and> messageTime message = Some m \<and> int (now div 1000) - m < 300
        \<and> verify message address signature = Inr False
      \<longrightarrow> submitStar sha verify now now_add s address message signature star
            = (Inl (Error ''Signature verification failed.''), s))"
proof (intro conjI impI)
  assume a: "1000 \<le> now \<and> messageTime message = Some m \<and> 300 \<le> int (now div 1000) - m"
  then have "\<not> within_five_minutes now message" by (simp add: within_five_minutes_iff)
  then show "submitStar sha verify now now_add s address message signature star
            = (Inl (Error ''Message signature has expired.''), s)"
    by (rule submitStar_expired)
next
  assume a: "1000 \<le> now \<and> messageTime message = Some m \<and> int (now div 1000) - m < 300
        \<and> verify message address signature = Inr False"
  then have "within_five_minutes now message" by (simp add: within_five_minutes_iff)
  with a show "submitStar sha verify now now_add s address message signature star
            = (Inl (Error ''Signature verification failed.''), s)"
    by (simp add: submitStar_bad_signature)
qed

theorem submission_rejected_unchanged_witness:
  "messageTime (requestMessageOwnershipVerification 1700000000000 ''addr'') = Some 1700000000
   \<and> submitStar (\<lambda>x. x) (\<lambda>m a g. Inr False) 1700000301000 1700000301000
        (Blockchain_new (\<lambda>x. x) 1600000000000) ''addr''
        (requestMessageOwnershipVerification 1700000000000 ''addr'') ''sig'' (JStr ''star'')
      = (Inl (Error ''Message signature has expired.''), Blockchain_new (\<lambda>x. x) 1600000000000)
   \<and> submitStar (\<lambda>x. x) (\<lambda>m a g. Inr False) 1700000100000 1700000100000
        (Blockchain_new (\<lambda>x. x) 1600000000000) ''addr''
        (requestMessageOwnershipVerification 1700000000000 ''addr'') ''sig'' (JStr ''star'')
      = (Inl (Error ''Signature verification failed.''), Blockchain_new (\<lambda>x. x) 1600000000000)"
proof -
  let ?msg = "requestMessageOwnershipVerification 1700000000000 ''addr''"
  have m: "messageTime ?msg = Some 1700000000"
    using messageTime_request [of "''addr''" 1700000000000] by simp
  have a: "(1000::nat) \<le> 1700000301000 \<and> messageTime ?msg = Some 1700000000
           \<and> (300::int) \<le> int (1700000301000 div 1000) - 1700000000"
    using m by simp
  have b: "(1000::nat) \<le> 1700000100000 \<and> messageTime ?msg = Some 1700000000
           \<and> int (1700000100000 div 1000) - 1700000000 < (300::int)
           \<and> (\<lambda>m a g. Inr False) ?msg ''addr'' ''sig'' = (Inr False :: rejection + bool)"
    using m by simp
  note t1 = submission_rejected_unchanged [of 1700000301000 ?msg 1700000000 "\<lambda>x. x"
      "\<lambda>m a g. Inr False" 1700000301000 "Blockchain_new (\<lambda>x. x) 1600000000000" "''addr''" "''sig''"
      "JStr ''star''", THEN conjunct1, rule_format, OF a]
  note t2 = submission_rejected_unchanged [of 1700000100000 ?msg 1700000000 "\<lambda>x. x"
      "\<lambda>m a g. Inr False" 1700000100000 "Blockchain_new (\<lambda>x. x) 1600000000000" "''addr''" "''sig''"
      "JStr ''star''", THEN conjunct2, rule_format, OF b]
  show ?thesis
    apply (intro conjI)
      apply (rule m)
     apply (rule t1)
    apply (rule t2)
    done
qed

section \<open>The challenge\<close>

text \<open>
  Claim C6, amended.  The challenge for an identity is
  \<open>identity:seconds:starRegistry\<close>; the test of \<open>submitStar\<close> accepts a message
  exactly when the time it reads from the message is less than 300 seconds behind the
  clock.  For an identity without a colon, the challenge issued at one time is accepted
  at another exactly when fewer than 300 seconds lie between them, and so a challenge
  just issued is accepted.  (The clock is past the first second of 1970.)
\<close>

theorem challenge_issue_and_freshness:
  "(1000 \<le> issued \<longrightarrow>
      requestMessageOwnershipVerification issued identity
        = identity @ '':'' @ show_nat (issued div 1000) @ '':starRegistry'')
   \<and> (1000 \<le> now \<longrightarrow>
        (within_five_minutes now message
           \<longleftrightarrow> (\<exists>m. messageTime message = Some m \<and> int (now div 1000) - m < 300)))
   \<and> (CHR '':'' \<notin> set identity \<and> 1000 \<le> issued \<and> 1000 \<le> now \<longrightarrow>
        (within_five_minutes now (requestMessageOwnershipVerification issued identity)
           \<longleftrightarrow> int (now div 1000) - int (issued div 1000) < 300))
   \<and> (CHR '':'' \<notin> set identity \<and> 1000 \<le> issued \<longrightarrow>
        within_five_minutes issued (requestMessageOwnershipVerification issued identity))"
proof (intro conjI impI)
  assume "1000 \<le> issued"
  then show "requestMessageOwnershipVerification issued identity
        = identity @ '':'' @ show_nat (issued div 1000) @ '':starRegistry''"
    by (simp add: requestMessageOwnershipVerification_def clock_string_seconds)
next
  assume "1000 \<le> now"
  then show "within_five_minutes now message
           \<longleftrightarrow> (\<exists>m. messageTime message = Some m \<and> int (now div 1000) - m < 300)"
    by (rule within_five_minutes_iff)
next
  assume a: "CHR '':'' \<notin> set identity \<and> 1000 \<le> issued \<and> 1000 \<le> now"
  then have "messageTime (requestMessageOwnershipVerification issued identity)
             = Some (int (issued div 1000))"
    by (simp add: messageTime_request)
  with a show "within_five_minutes now (requestMessageOwnershipVerification issued identity)
           \<longleftrightarrow> int (now div 1000) - int (issued div 1000) < 300"
    by (simp add: within_five_minutes_iff)
next
  assume a: "CHR '':'' \<notin> set identity \<and> 1000 \<le> issued"
  then have "messageTime (requestMessageOwnershipVerification issued identity)
             = Some (int (issued div 1000))"
    by (simp add: messageTime_request)
  with a show "within_five_minutes issued (requestMessageOwnershipVerification issued identity)"
    by (simp add: within_five_minutes_iff)
qed

theorem challenge_issue_and_freshness_witness:
  "requestMessageOwnershipVerification 1700000000000 ''mzAddr''
     = ''mzAddr'' @ '':'' @ show_nat 1700000000 @ '':starRegistry''
   \<and> within_five_minutes 1700000000000 (requestMessageOwnershipVerification 1700000000000 ''mzAddr'')
   \<and> within_five_minutes 1700000299999 (requestMessageOwnershipVerification 1700000000000 ''mzAddr'')
   \<and> \<not> within_five_minutes 1700000300000 (requestMessageOwnershipVerification 1700000000000 ''mzAddr'')"
proof -
  note t = challenge_issue_and_freshness [of 1700000000000 "''mzAddr''"]
  have c: "CHR '':'' \<notin> set ''mzAddr''" by simp
  have f: "requestMessageOwnershipVerification 1700000000000 ''mzAddr''
     = ''mzAddr'' @ '':'' @ show_nat 1700000000 @ '':starRegistry''"
    using t [of 1700000000000 "[]", THEN conjunct1] by simp
  have a: "within_five_minutes 1700000000000
             (requestMessageOwnershipVerification 1700000000000 ''mzAddr'')"
    using t [of 1700000000000 "[]", THEN conjunct2, THEN conjunct2, THEN conjunct2] c by simp
  have b: "within_five_minutes 1700000299999
             (requestMessageOwnershipVerification 1700000000000 ''mzAddr'')"
    using t [of 1700000299999 "[]", THEN conjunct2, THEN conjunct2, THEN conjunct1] c by simp
  have d: "\<not> within_five_minutes 1700000300000
             (requestMessageOwnershipVerification 1700000000000 ''mzAddr'')"
    using t [of 1700000300000 "[]", THEN conjunct2, THEN conjunct2, THEN conjunct1] c by simp
  show ?thesis
    apply (intro conjI)
       apply (rule f)
      apply (rule a)
     apply (rule b)
    apply (rule d)
    done
qed

text \<open>
  Claim C6 as stated fails for an identity with a colon in it: \<open>split(':')[1]\<close> is
  then a piece of the identity, not the time, and the challenge just issued for
  \<open>a:b\<close> is turned down.
\<close>

theorem challenge_freshness_counterexample:
  "\<not> within_five_minutes 1700000000000
       (requestMessageOwnershipVerification 1700000000000 ''a:b'')"
proof -
  have c: "CHR '':'' \<notin> set ''a''" "CHR '':'' \<notin> set ''b''" by simp_all
  have "requestMessageOwnershipVerification 1700000000000 ''a:b''
        = ''a'' @ CHR '':'' # (''b'' @ CHR '':'' # (clock_string 1700000000000 @ '':starRegistry''))"
    by (simp add: requestMessageOwnershipVerification_def)
  then have "split_on CHR '':'' (requestMessageOwnershipVerification 1700000000000 ''a:b'')
        = ''a'' # ''b'' # split_on CHR '':'' (clock_string 1700000000000 @ '':starRegistry'')"
    by (simp only: split_on_prefix [OF c(1)] split_on_prefix [OF c(2)])
  then have "messageTime (requestMessageOwnershipVerification 1700000000000 ''a:b'') = None"
    by (simp add: messageTime_def js_index_def parseInt_letter)
  then show ?thesis by (simp add: within_five_minutes_def split: option.splits)
qed

section \<open>The codec\<close>

text \<open>
  Claim C7, amended.  For every representable record whose strings, property names
  included, are ASCII, decoding the body that the constructor encoded gives the record
  back: by \<open>JSON.parse\<close> after \<open>hex2ascii\<close>, and so by \<open>getBData\<close> on any block
  but the genesis block.
\<close>

theorem codec_round_trip_ascii:
  assumes "representable x" and "ascii_json x"
  shows "body (Block_new x) = toString_hex (Buffer_from (JSON_stringify x))
         \<and> JSON_parse (hex2ascii (body (Block_new x))) = Inr x
         \<and> (h \<noteq> 0 \<longrightarrow> getBData ((Block_new x)\<lparr>height := h\<rparr>) = Inr x)"
proof -
  have m: "mangled x = x" using assms(2) mangled_ascii(1) [of x] by simp
  have r: "reparsed x = x" using assms(1) reparsed_representable(1) [of x] by simp
  have b: "body (Block_new x) = toString_hex (Buffer_from (JSON_stringify x))"
    by (simp add: Block_new_def)
  have d: "JSON_parse (hex2ascii (body (Block_new x))) = Inr x"
    by (simp add: b decode_encode m r)
  have g: "getBData ((Block_new x)\<lparr>height := h\<rparr>) = Inr x" if "h \<noteq> 0"
    using getBData_Block_new [OF that, of "(Block_new x)\<lparr>height := h\<rparr>" x] b
    by (simp add: m r)
  from b d g show ?thesis by simp
qed

theorem codec_round_trip_ascii_witness:
  "representable (JObj [(''owner'', JStr ''mz''), (''star'', JObj [(''story'', JStr ''Found it''), (''mag'', JNum (- 2))])])
   \<and> ascii_json (JObj [(''owner'', JStr ''mz''), (''star'', JObj [(''story'', JStr ''Found it''), (''mag'', JNum (- 2))])])
   \<and> getBData ((Block_new (JObj [(''owner'', JStr ''mz''), (''star'', JObj [(''story'', JStr ''Found it''), (''mag'', JNum (- 2))])]))\<lparr>height := 1\<rparr>)
       = Inr (JObj [(''owner'', JStr ''mz''), (''star'', JObj [(''story'', JStr ''Found it''), (''mag'', JNum (- 2))])])"
proof -
  let ?x = "JObj [(''owner'', JStr ''mz''), (''star'', JObj [(''story'', JStr ''Found it''), (''mag'', JNum (- 2))])]"
  have r: "representable ?x" by simp
  have a: "ascii_json ?x" by (simp add: ascii_def)
  from codec_round_trip_ascii [OF r a, of 1] r a show ?thesis by simp
qed

text \<open>
  Claim C7 as stated fails on a string outside ASCII: the constructor writes the two
  UTF-8 bytes of \<open>\u00e9\<close>, and \<open>hex2ascii\<close> reads them back as two characters.
\<close>

theorem codec_round_trip_counterexample:
  "representable (JStr [CHR 0xE9])
   \<and> getBData ((Block_new (JStr [CHR 0xE9]))\<lparr>height := 1\<rparr>) = Inr (JStr [CHR 0xC3, CHR 0xA9])
   \<and> getBData ((Block_new (JStr [CHR 0xE9]))\<lparr>height := 1\<rparr>) \<noteq> Inr (JStr [CHR 0xE9])"
proof -
  have "getBData ((Block_new (JStr [CHR 0xE9]))\<lparr>height := 1\<rparr>)
        = Inr (reparsed (mangled (JStr [CHR 0xE9])))"
    by (rule getBData_Block_new) (simp_all add: Block_new_def)
  then show ?thesis by (simp add: utf8_e_acute)
qed

section \<open>Stars of an owner\<close>

text \<open>
  Claim C8, amended.  For every identity other than the empty string, on a ledger whose
  payloads all decode to a value other than \<open>null\<close> (as they do on every ledger that
  the constructor and \<open>submitStar\<close> build), \<open>getStarsByWalletAddress\<close> returns the
  records of the blocks whose decoded owner is the identity, in chain order, and
  \<open>null\<close> when there is none.
\<close>

theorem stars_by_wallet_address:
  assumes "address \<noteq> []" and "decodable s"
  shows "getStarsByWalletAddress s address = Inr (getRecordsByIdentity (chain s) address)
         \<and> (records_of_identity (chain s) address = []
              \<longrightarrow> getStarsByWalletAddress s address = Inr None)"
  using getStars_eq_records [OF assms(1)] assms(2)
  by (simp add: getRecordsByIdentity_def decodable_def)

theorem stars_by_wallet_address_witness:
  "decodable star_ledger
   \<and> getStarsByWalletAddress star_ledger ''A'' = Inr (Some [JStr ''Vega'', JStr ''Altair''])
   \<and> getStarsByWalletAddress star_ledger ''C'' = Inr None"
proof -
  let ?g = "JObj [(''data'', JStr ''Genesis Block'')]"
  let ?a = "JObj [(''owner'', JStr ''A''), (''star'', JStr ''Vega'')]"
  let ?b = "JObj [(''owner'', JStr ''B''), (''star'', JStr ''Deneb'')]"
  let ?c = "JObj [(''owner'', JStr ''A''), (''star'', JStr ''Altair'')]"
  have ok: "representable ?g" "ascii_json ?g" "representable ?a" "ascii_json ?a"
    "representable ?b" "ascii_json ?b" "representable ?c" "ascii_json ?c"
    by (simp_all add: ascii_def)
  obtain s0 s1 s2 s3 t0 t1 t2 t3 where
    ch: "chain star_ledger = [sealed (\<lambda>x. x) t0 s0 (Block_new ?g), sealed (\<lambda>x. x) t1 s1 (Block_new ?a),
            sealed (\<lambda>x. x) t2 s2 (Block_new ?b), sealed (\<lambda>x. x) t3 s3 (Block_new ?c)]"
    by (simp add: star_ledger_def pushed_def Blockchain_new_eq)
  have dec: "decodable star_ledger"
    unfolding star_ledger_def by (intro decodable_pushed decodable_genesis)
  have ra: "getRecordsByIdentity (chain star_ledger) ''A'' = Some [JStr ''Vega'', JStr ''Altair'']"
    unfolding ch getRecordsByIdentity_def records_of_identity_def
    by (simp add: payload_field_sealed [OF ok(1,2)] payload_field_sealed [OF ok(3,4)]
        payload_field_sealed [OF ok(5,6)] payload_field_sealed [OF ok(7,8)])
  have rc: "getRecordsByIdentity (chain star_ledger) ''C'' = None"
    unfolding ch getRecordsByIdentity_def records_of_identity_def
    by (simp add: payload_field_sealed [OF ok(1,2)] payload_field_sealed [OF ok(3,4)]
        payload_field_sealed [OF ok(5,6)] payload_field_sealed [OF ok(7,8)])
  have na: "''A'' \<noteq> []" and nc: "''C'' \<noteq> []" by simp_all
  from stars_by_wallet_address [OF na dec] ra
  have a: "getStarsByWalletAddress star_ledger ''A'' = Inr (Some [JStr ''Vega'', JStr ''Altair''])"
    by simp
  from stars_by_wallet_address [OF nc dec] rc
  have c: "getStarsByWalletAddress star_ledger ''C'' = Inr None" by simp
  show ?thesis
    apply (intro conjI)
      apply (rule dec)
     apply (rule a)
    apply (rule c)
    done
qed

text \<open>
  Claim C8 as stated fails for the empty identity: the guard \<open>decodedData.owner &&\<close>
  is false for an empty owner, so a star submitted under \<open>""\<close> is never returned.
\<close>

theorem stars_by_wallet_address_counterexample:
  "decodable
     (snd (submitStar (\<lambda>x. x) (\<lambda>m a g. Inr True) 1700000000000 1700000000000
        (Blockchain_new (\<lambda>x. x) 1690000000000) ''''
        (requestMessageOwnershipVerification 1700000000000 '''') ''sig'' (JStr ''Sirius'')))
   \<and> getStarsByWalletAddress
     (snd (submitStar (\<lambda>x. x) (\<lambda>m a g. Inr True) 1700000000000 1700000000000
        (Blockchain_new (\<lambda>x. x) 1690000000000) ''''
        (requestMessageOwnershipVerification 1700000000000 '''') ''sig'' (JStr ''Sirius'')))
     '''' = Inr None
   \<and> getRecordsByIdentity (chain
     (snd (submitStar (\<lambda>x. x) (\<lambda>m a g. Inr True) 1700000000000 1700000000000
        (Blockchain_new (\<lambda>x. x) 1690000000000) ''''
        (requestMessageOwnershipVerification 1700000000000 '''') ''sig'' (JStr ''Sirius''))))
     '''' = Some [JStr ''Sirius'']"
proof -
  let ?g = "JObj [(''data'', JStr ''Genesis Block'')]"
  let ?d = "JObj [(''owner'', JStr ''''), (''star'', JStr ''Sirius'')]"
  let ?s = "snd (submitStar (\<lambda>x. x) (\<lambda>m a g. Inr True) 1700000000000 1700000000000
        (Blockchain_new (\<lambda>x. x) 1690000000000) ''''
        (requestMessageOwnershipVerification 1700000000000 '''') ''sig'' (JStr ''Sirius''))"
  have ok: "representable ?g" "ascii_json ?g" "representable ?d" "ascii_json ?d"
    by (simp_all add: ascii_def)
  have m: "messageTime (requestMessageOwnershipVerification 1700000000000 '''')
           = Some (int (1700000000000 div 1000))"
    by (rule messageTime_request) simp_all
  have f: "within_five_minutes 1700000000000
             (requestMessageOwnershipVerification 1700000000000 '''')"
    by (simp add: within_five_minutes_iff m)
  have s: "?s = pushed (\<lambda>x. x) 1700000000000 (Blockchain_new (\<lambda>x. x) 1690000000000) (Block_new ?d)"
    using submitStar_accepted [OF f _ reachable.genesis, of "\<lambda>m a g. Inr True" "''''" "''sig''"
        "\<lambda>x. x" 1700000000000 1690000000000 "JStr ''Sirius''"]
    by simp
  obtain s0 s1 t0 t1 where
    ch: "chain ?s = [sealed (\<lambda>x. x) t0 s0 (Block_new ?g), sealed (\<lambda>x. x) t1 s1 (Block_new ?d)]"
    unfolding s by (simp add: pushed_def Blockchain_new_eq)
  have d: "decodable ?s" by (rule decodable_submitStar [OF decodable_genesis])
  have a: "getStarsByWalletAddress ?s '''' = Inr None"
    unfolding getStarsByWalletAddress_def ch
    by (simp add: star_of_block_def payload_sealed [OF ok(1,2)] payload_sealed [OF ok(3,4)]
        js_get_def truthy_def)
  have b: "getRecordsByIdentity (chain ?s) '''' = Some [JStr ''Sirius'']"
    unfolding ch getRecordsByIdentity_def records_of_identity_def
    by (simp add: payload_field_sealed [OF ok(1,2)] payload_field_sealed [OF ok(3,4)])
  show ?thesis
    apply (intro conjI)
      apply (rule d)
     apply (rule a)
    apply (rule b)
    done
qed

section \<open>Stored blocks decode\<close>

text \<open>
  Claim C10.  Every block of a reachable ledger has a hash, and a body that is the
  hexadecimal form of the UTF-8 bytes of a text that \<open>JSON.parse\<close> accepts; what
  \<open>hex2ascii\<close> makes of the body parses as well, so \<open>getBData\<close> resolves on every
  block above the genesis block and \<open>getStarsByWalletAddress\<close> never rejects with a
  syntax error.
\<close>

theorem stored_blocks_decode:
  assumes "reachable sha s"
  shows "(\<forall>b \<in> set (chain s).
            (\<exists>h. hash b = Some h)
            \<and> (\<exists>text v. body b = toString_hex (Buffer_from text) \<and> JSON_parse text = Inr v)
            \<and> (\<exists>v. JSON_parse (hex2ascii (body b)) = Inr v)
            \<and> (height b \<noteq> 0 \<longrightarrow> (\<exists>v. getBData b = Inr v)))
         \<and> getStarsByWalletAddress s address \<noteq> Inl SyntaxError"
proof -
  have e: "\<forall>b \<in> set (chain s). engine_block b" using assms by (rule reachable_engine_blocks)
  have d: "\<forall>b \<in> set (chain s). \<exists>v. JSON_parse (hex2ascii (body b)) = Inr v"
    using e engine_block_decodes by blast
  have 1: "\<exists>h. hash b = Some h" if "b \<in> set (chain s)" for b
    using e that by (auto simp add: engine_block_def)
  have 2: "\<exists>text v. body b = toString_hex (Buffer_from text) \<and> JSON_parse text = Inr v"
    if "b \<in> set (chain s)" for b
  proof -
    from e that obtain x where "body b = toString_hex (Buffer_from (JSON_stringify x))"
      by (auto simp add: engine_block_def)
    then show ?thesis using JSON_parse_stringify [of x] by blast
  qed
  have 3: "height b \<noteq> 0 \<longrightarrow> (\<exists>v. getBData b = Inr v)" if "b \<in> set (chain s)" for b
    using d that by (auto simp add: getBData_def Let_def)
  have "map_blocks (star_of_block address) (chain s) \<noteq> Inl SyntaxError"
    using d by (rule map_blocks_no_syntax_error)
  then have 4: "getStarsByWalletAddress s address \<noteq> Inl SyntaxError"
    by (auto simp add: getStarsByWalletAddress_def Let_def split: sum.splits)
  from 1 2 3 4 d show ?thesis by blast
qed

theorem stored_blocks_decode_witness:
  "reachable (\<lambda>x. x)
     (pushed (\<lambda>x. x) 1700000060000 (Blockchain_new (\<lambda>x. x) 1700000000000)
        (Block_new (JObj [(''owner'', JStr ''mz''), (''star'', JStr ''Vega'')])))
   \<and> (\<exists>h. hash (last (chain
     (pushed (\<lambda>x. x) 1700000060000 (Blockchain_new (\<lambda>x. x) 1700000000000)
        (Block_new (JObj [(''owner'', JStr ''mz''), (''star'', JStr ''Vega'')]))))) = Some h)
   \<and> (\<exists>v. getBData (last (chain
     (pushed (\<lambda>x. x) 1700000060000 (Blockchain_new (\<lambda>x. x) 1700000000000)
        (Block_new (JObj [(''owner'', JStr ''mz''), (''star'', JStr ''Vega'')]))))) = Inr v)
   \<and> getStarsByWalletAddress
     (pushed (\<lambda>x. x) 1700000060000 (Blockchain_new (\<lambda>x. x) 1700000000000)
        (Block_new (JObj [(''owner'', JStr ''mz''), (''star'', JStr ''Vega'')]))) ''mz''
       \<noteq> Inl SyntaxError"
proof -
  let ?s = "pushed (\<lambda>x. x) 1700000060000 (Blockchain_new (\<lambda>x. x) 1700000000000)
        (Block_new (JObj [(''owner'', JStr ''mz''), (''star'', JStr ''Vega'')]))"
  have r: "reachable (\<lambda>x. x) ?s"
    by (rule reachable.append [OF reachable.genesis append_succeeds [OF reachable.genesis]])
  have m: "last (chain ?s) \<in> set (chain ?s)" by (simp add: pushed_def)
  have h: "height (last (chain ?s)) \<noteq> 0"
    by (simp add: pushed_def sealed_fields Blockchain_new_eq)
  note t = stored_blocks_decode [OF r, of "''mz''"]
  from t m have a: "\<exists>h. hash (last (chain ?s)) = Some h" by blast
  from t m h have b: "\<exists>v. getBData (last (chain ?s)) = Inr v" by blast
  from t have c: "getStarsByWalletAddress ?s ''mz'' \<noteq> Inl SyntaxError" by blast
  show ?thesis
    apply (intro conjI)
       apply (rule r)
      apply (rule a)
     apply (rule b)
    apply (rule c)
    done
qed

end
